theory Spec2Isabelle
  imports Main "HOL-Library.Word" "HOL-Library.Multiset"
begin

section \<open>Data model\<close>

text \<open>
  Job ranks, vehicle ranks and positions inside a route (the source's \<open>Index\<close>) are natural
  numbers. \<open>Cost\<close> and \<open>Duration\<close> are type parameters of the tables; the functions
  use them at unsigned machine integers whose width is left open (\<open>'c word\<close>,
  \<open>'d word\<close>), where \<open>std::numeric_limits<Cost>::max()\<close> is the all-ones word \<open>- 1\<close>.
  \<open>Gain\<close> is the signed type the operators compute in; it is taken wide enough to hold
  every sum of a few costs, so it is \<open>int\<close> and \<open>static_cast<Gain>\<close> of a cost is \<open>uint\<close>.
\<close>

type_synonym Index = nat
type_synonym Gain = int

text \<open>
  Modelled from the spec: \<open>Amount\<close> (its header is not part of the sources at hand) is a
  fixed-dimension vector of non-negative integers with componentwise addition and the strict
  order \<open>a << b\<close>: componentwise \<open>\<le>\<close> and \<open><\<close> in at least one component.
\<close>

type_synonym Amount = "nat list"

definition amount_add :: "Amount \<Rightarrow> Amount \<Rightarrow> Amount" where
  "amount_add a b = map2 (+) a b"

definition amount_lt :: "Amount \<Rightarrow> Amount \<Rightarrow> bool" where
  "amount_lt a b \<longleftrightarrow>
     list_all2 (\<le>) a b \<and> list_ex (\<lambda>(x, y). x < y) (zip a b)"

record 'd TimeWindow =
  tw_start :: 'd
  tw_end :: 'd
  tw_length :: 'd

record 'd Job =
  index :: Index
  pickup :: Amount
  delivery :: Amount
  tws :: "'d TimeWindow list"

record 'd Vehicle =
  capacity :: Amount
  tw :: "'d TimeWindow"
  v_start :: "Index option"
  v_end :: "Index option"

text \<open>
  \<open>Input\<close>: the job and vehicle tables, the cost matrix \<open>get_matrix()\<close> as a lookup
  \<open>m[i][j]\<close>, the compatibility predicate \<open>vehicle_ok_with_job(v, j)\<close> and the value of
  \<open>zero_amount()\<close>.
\<close>

record ('c, 'd) Input =
  jobs :: "'d Job list"
  vehicles :: "'d Vehicle list"
  matrix :: "Index \<Rightarrow> Index \<Rightarrow> 'c"
  vehicle_ok_with_job :: "Index \<Rightarrow> Index \<Rightarrow> bool"
  zero_amount :: Amount

record SolutionState =
  edge_costs_around_edge :: "Gain list list"

section \<open>Cross-exchange operator\<close>

text \<open>
  The operator object: the two routes it holds references to, the ranks, and its own
  fields. \<open>stored_gain\<close> and \<open>gain_computed\<close> belong to the \<open>Operator\<close> base class.
\<close>

record CrossExchange =
  s_route :: "Index list"
  s_vehicle :: Index
  s_rank :: Index
  t_route :: "Index list"
  t_vehicle :: Index
  t_rank :: Index
  stored_gain :: Gain
  gain_computed :: bool
  gain_upper_bound_computed :: bool
  normal_s_gain :: Gain
  reversed_s_gain :: Gain
  normal_t_gain :: Gain
  reversed_t_gain :: Gain
  reverse_s_edge :: bool
  reverse_t_edge :: bool
  s_is_normal_valid :: bool
  s_is_reverse_valid :: bool
  t_is_normal_valid :: bool
  t_is_reverse_valid :: bool

text \<open>The five assertions of the constructor.\<close>

definition ctor_asserts :: "Index list \<Rightarrow> Index \<Rightarrow> Index \<Rightarrow> Index list \<Rightarrow> Index \<Rightarrow> Index \<Rightarrow> bool" where
  "ctor_asserts sr sv srk tr tv trk \<longleftrightarrow>
     sv \<noteq> tv \<and> length sr \<ge> 2 \<and> length tr \<ge> 2 \<and>
     srk < length sr - 1 \<and> trk < length tr - 1"

text \<open>
  The constructor: \<open>None\<close> when an assertion fails. The base class starts with
  \<open>stored_gain = 0\<close> and \<open>gain_computed = false\<close>; the four gains are not initialised by
  the constructor and are given the value 0 here.
\<close>

definition CrossExchange_new ::
  "Index list \<Rightarrow> Index \<Rightarrow> Index \<Rightarrow> Index list \<Rightarrow> Index \<Rightarrow> Index \<Rightarrow> CrossExchange option" where
  "CrossExchange_new sr sv srk tr tv trk =
     (if ctor_asserts sr sv srk tr tv trk then
        Some \<lparr> s_route = sr, s_vehicle = sv, s_rank = srk,
               t_route = tr, t_vehicle = tv, t_rank = trk,
               stored_gain = 0, gain_computed = False,
               gain_upper_bound_computed = False,
               normal_s_gain = 0, reversed_s_gain = 0,
               normal_t_gain = 0, reversed_t_gain = 0,
               reverse_s_edge = False, reverse_t_edge = False,
               s_is_normal_valid = False, s_is_reverse_valid = False,
               t_is_normal_valid = False, t_is_reverse_valid = False \<rparr>
      else None)"

text \<open>The class invariant the assertions establish: the ranks name an edge of each route.\<close>

definition well_formed :: "CrossExchange \<Rightarrow> bool" where
  "well_formed ce \<longleftrightarrow>
     ctor_asserts (s_route ce) (s_vehicle ce) (s_rank ce) (t_route ce) (t_vehicle ce) (t_rank ce)"

subsection \<open>\<open>gain_upper_bound\<close>\<close>

definition job_index :: "('c, 'd) Input \<Rightarrow> Index \<Rightarrow> Index" where
  "job_index inp j = index (jobs inp ! j)"

text \<open>
  The local variables \<open>previous_cost\<close>, \<open>next_cost\<close>, \<open>reverse_previous_cost\<close> and
  \<open>reverse_next_cost\<close> start at 0 and are assigned in the branches, first for the source
  side, then again for the target side.
\<close>

definition gain_upper_bound ::
  "('c::len word, 'd) Input \<Rightarrow> SolutionState \<Rightarrow> CrossExchange \<Rightarrow> Gain \<times> CrossExchange" where
  "gain_upper_bound inp sol ce =
     (let m = matrix inp;
          v_source = vehicles inp ! s_vehicle ce;
          v_target = vehicles inp ! t_vehicle ce;
          s_index = job_index inp (s_route ce ! s_rank ce);
          s_after_index = job_index inp (s_route ce ! (s_rank ce + 1));
          t_index = job_index inp (t_route ce ! t_rank ce);
          t_after_index = job_index inp (t_route ce ! (t_rank ce + 1));
          (previous_cost, reverse_previous_cost) =
            (if s_rank ce = 0 then
               (case v_start v_source of
                  Some p_index \<Rightarrow> (uint (m p_index t_index), uint (m p_index t_after_index))
                | None \<Rightarrow> (0, 0))
             else
               (let p_index = job_index inp (s_route ce ! (s_rank ce - 1))
                in (uint (m p_index t_index), uint (m p_index t_after_index))));
          (next_cost, reverse_next_cost) =
            (if s_rank ce = length (s_route ce) - 2 then
               (case v_end v_source of
                  Some n_index \<Rightarrow> (uint (m t_after_index n_index), uint (m t_index n_index))
                | None \<Rightarrow> (0, 0))
             else
               (let n_index = job_index inp (s_route ce ! (s_rank ce + 2))
                in (uint (m t_after_index n_index), uint (m t_index n_index))));
          n_s_gain = edge_costs_around_edge sol ! s_vehicle ce ! s_rank ce
                       - previous_cost - next_cost;
          reverse_edge_cost = uint (m t_index t_after_index) - uint (m t_after_index t_index);
          r_s_gain = edge_costs_around_edge sol ! s_vehicle ce ! s_rank ce
                       + reverse_edge_cost - reverse_previous_cost - reverse_next_cost;
          (previous_cost, reverse_previous_cost) =
            (if t_rank ce = 0 then
               (case v_start v_target of
                  Some p_index \<Rightarrow> (uint (m p_index s_index), uint (m p_index s_after_index))
                | None \<Rightarrow> (0, 0))
             else
               (let p_index = job_index inp (t_route ce ! (t_rank ce - 1))
                in (uint (m p_index s_index), uint (m p_index s_after_index))));
          (next_cost, reverse_next_cost) =
            (if t_rank ce = length (t_route ce) - 2 then
               (case v_end v_target of
                  Some n_index \<Rightarrow> (uint (m s_after_index n_index), uint (m s_index n_index))
                | None \<Rightarrow> (0, 0))
             else
               (let n_index = job_index inp (t_route ce ! (t_rank ce + 2))
                in (uint (m s_after_index n_index), uint (m s_index n_index))));
          n_t_gain = edge_costs_around_edge sol ! t_vehicle ce ! t_rank ce
                       - previous_cost - next_cost;
          reverse_edge_cost = uint (m s_index s_after_index) - uint (m s_after_index s_index);
          r_t_gain = edge_costs_around_edge sol ! t_vehicle ce ! t_rank ce
                       + reverse_edge_cost - reverse_previous_cost - reverse_next_cost
      in (max n_s_gain r_s_gain + max n_t_gain r_t_gain,
          ce \<lparr> normal_s_gain := n_s_gain, reversed_s_gain := r_s_gain,
               normal_t_gain := n_t_gain, reversed_t_gain := r_t_gain,
               gain_upper_bound_computed := True \<rparr>))"

subsection \<open>\<open>compute_gain\<close>\<close>

text \<open>
  \<open>None\<close> is a failed assertion. The source side chooses the orientation of the target
  edge (\<open>reverse_t_edge\<close>), the target side that of the source edge (\<open>reverse_s_edge\<close>).
\<close>

definition compute_gain :: "CrossExchange \<Rightarrow> CrossExchange option" where
  "compute_gain ce =
     (if \<not> gain_upper_bound_computed ce then None
      else if \<not> (s_is_normal_valid ce \<or> s_is_reverse_valid ce) then None
      else
        let ce1 =
          (if reversed_s_gain ce > normal_s_gain ce then
             (if s_is_reverse_valid ce then
                ce \<lparr> stored_gain := stored_gain ce + reversed_s_gain ce, reverse_t_edge := True \<rparr>
              else ce \<lparr> stored_gain := stored_gain ce + normal_s_gain ce \<rparr>)
           else
             (if s_is_normal_valid ce then
                ce \<lparr> stored_gain := stored_gain ce + normal_s_gain ce \<rparr>
              else
                ce \<lparr> stored_gain := stored_gain ce + reversed_s_gain ce, reverse_t_edge := True \<rparr>))
        in
        if \<not> (t_is_normal_valid ce1 \<or> t_is_reverse_valid ce1) then None
        else
          let ce2 =
            (if reversed_t_gain ce1 > normal_t_gain ce1 then
               (if t_is_reverse_valid ce1 then
                  ce1 \<lparr> stored_gain := stored_gain ce1 + reversed_t_gain ce1, reverse_s_edge := True \<rparr>
                else ce1 \<lparr> stored_gain := stored_gain ce1 + normal_t_gain ce1 \<rparr>)
             else
               (if t_is_normal_valid ce1 then
                  ce1 \<lparr> stored_gain := stored_gain ce1 + normal_t_gain ce1 \<rparr>
                else
                  ce1 \<lparr> stored_gain := stored_gain ce1 + reversed_t_gain ce1, reverse_s_edge := True \<rparr>))
          in Some (ce2 \<lparr> gain_computed := True \<rparr>))"

subsection \<open>\<open>is_valid\<close>\<close>

text \<open>
  The capacity queries of \<open>RawRoute\<close> that \<open>is_valid\<close> calls on \<open>source\<close> and \<open>target\<close>
  are not part of the sources at hand; they are pure queries and enter as the two fields
  of a \<open>RawRoute\<close> value. The iterator range of the inclusion query is the list of job
  ranks it yields.
\<close>

record ('c, 'd) RawRoute =
  is_valid_addition_for_capacity_margins ::
    "('c, 'd) Input \<Rightarrow> Amount \<Rightarrow> Amount \<Rightarrow> Index \<Rightarrow> Index \<Rightarrow> bool"
  is_valid_addition_for_capacity_inclusion ::
    "('c, 'd) Input \<Rightarrow> Amount \<Rightarrow> Index list \<Rightarrow> Index \<Rightarrow> Index \<Rightarrow> bool"

definition is_valid ::
  "('c, 'd) Input \<Rightarrow> ('c, 'd) RawRoute \<Rightarrow> ('c, 'd) RawRoute \<Rightarrow> CrossExchange
     \<Rightarrow> bool \<times> CrossExchange" where
  "is_valid inp source target ce =
     (let s_current_job_rank = s_route ce ! s_rank ce;
          t_current_job_rank = t_route ce ! t_rank ce;
          s_after_job_rank = s_route ce ! (s_rank ce + 1);
          t_after_job_rank = t_route ce ! (t_rank ce + 1);
          valid = vehicle_ok_with_job inp (t_vehicle ce) s_current_job_rank;
          valid = (valid \<and> vehicle_ok_with_job inp (t_vehicle ce) s_after_job_rank);
          valid = (valid \<and> vehicle_ok_with_job inp (s_vehicle ce) t_current_job_rank);
          valid = (valid \<and> vehicle_ok_with_job inp (s_vehicle ce) t_after_job_rank);
          target_pickup = amount_add (pickup (jobs inp ! t_current_job_rank))
                                     (pickup (jobs inp ! t_after_job_rank));
          target_delivery = amount_add (delivery (jobs inp ! t_current_job_rank))
                                       (delivery (jobs inp ! t_after_job_rank));
          valid = (valid \<and> is_valid_addition_for_capacity_margins source inp
                              target_pickup target_delivery (s_rank ce) (s_rank ce + 2));
          (valid, ce) =
            (if valid then
               (let sn = is_valid_addition_for_capacity_inclusion source inp target_delivery
                           [t_current_job_rank, t_after_job_rank] (s_rank ce) (s_rank ce + 2);
                    sr = is_valid_addition_for_capacity_inclusion source inp target_delivery
                           [t_after_job_rank, t_current_job_rank] (s_rank ce) (s_rank ce + 2)
                in (sn \<or> sr, ce \<lparr> s_is_normal_valid := sn, s_is_reverse_valid := sr \<rparr>))
             else (valid, ce));
          source_pickup = amount_add (pickup (jobs inp ! s_current_job_rank))
                                     (pickup (jobs inp ! s_after_job_rank));
          source_delivery = amount_add (delivery (jobs inp ! s_current_job_rank))
                                       (delivery (jobs inp ! s_after_job_rank));
          valid = (valid \<and> is_valid_addition_for_capacity_margins target inp
                              source_pickup source_delivery (t_rank ce) (t_rank ce + 2));
          (valid, ce) =
            (if valid then
               (let tn = is_valid_addition_for_capacity_inclusion target inp source_delivery
                           [s_current_job_rank, s_after_job_rank] (t_rank ce) (t_rank ce + 2);
                    tr = is_valid_addition_for_capacity_inclusion target inp source_delivery
                           [s_after_job_rank, s_current_job_rank] (t_rank ce) (t_rank ce + 2)
                in (tn \<or> tr, ce \<lparr> t_is_normal_valid := tn, t_is_reverse_valid := tr \<rparr>))
             else (valid, ce))
      in (valid, ce))"

subsection \<open>\<open>apply\<close>\<close>

text \<open>\<open>std::swap\<close> of two elements of one vector, and of elements of two vectors.\<close>

definition swap_in :: "'a list \<Rightarrow> nat \<Rightarrow> nat \<Rightarrow> 'a list" where
  "swap_in xs i j = xs[i := xs ! j, j := xs ! i]"

definition swap_between :: "'a list \<Rightarrow> nat \<Rightarrow> 'a list \<Rightarrow> nat \<Rightarrow> 'a list \<times> 'a list" where
  "swap_between xs i ys j = (xs[i := ys ! j], ys[j := xs ! i])"

definition apply_op :: "CrossExchange \<Rightarrow> CrossExchange" where
  "apply_op ce =
     (let (sr, tr) = swap_between (s_route ce) (s_rank ce) (t_route ce) (t_rank ce);
          (sr, tr) = swap_between sr (s_rank ce + 1) tr (t_rank ce + 1);
          tr = (if reverse_s_edge ce then swap_in tr (t_rank ce) (t_rank ce + 1) else tr);
          sr = (if reverse_t_edge ce then swap_in sr (s_rank ce) (s_rank ce + 1) else sr)
      in ce \<lparr> s_route := sr, t_route := tr \<rparr>)"

subsection \<open>Travel cost of a route and the solution-state cache\<close>

text \<open>
  The travel cost of a route, from the matrix alone: the cost of every edge of the
  sequence start (when the vehicle has one), the jobs' locations in route order, end (when
  the vehicle has one). An empty route costs nothing.
\<close>

fun path_cost :: "(Index \<Rightarrow> Index \<Rightarrow> 'c::len word) \<Rightarrow> Index list \<Rightarrow> int" where
  "path_cost m (x # y # ys) = uint (m x y) + path_cost m (y # ys)"
| "path_cost m _ = 0"

definition depot :: "Index option \<Rightarrow> Index list" where
  "depot l = (case l of Some i \<Rightarrow> [i] | None \<Rightarrow> [])"

definition route_cost :: "('c::len word, 'd) Input \<Rightarrow> Index \<Rightarrow> Index list \<Rightarrow> int" where
  "route_cost inp v route =
     (if route = [] then 0
      else path_cost (matrix inp)
             (depot (v_start (vehicles inp ! v)) @ map (job_index inp) route
                @ depot (v_end (vehicles inp ! v))))"

text \<open>
  Modelled from the spec: the code that fills \<open>edge_costs_around_edge\<close> is not part of the
  sources at hand. For vehicle \<open>v\<close> and position \<open>r\<close> of its route the entry is
  \<open>cost(prev(r) \<rightarrow> job_at(r)) + cost(job_at(r+1) \<rightarrow> next(r+1))\<close>, where \<open>prev\<close> and \<open>next\<close>
  are the vehicle's start and end on the boundary (no edge, cost 0, when the vehicle has
  none).
\<close>

definition edge_cost_around :: "('c::len word, 'd) Input \<Rightarrow> Index \<Rightarrow> Index list \<Rightarrow> Index \<Rightarrow> Gain" where
  "edge_cost_around inp v route r =
     (let m = matrix inp;
          c_index = job_index inp (route ! r);
          after_index = job_index inp (route ! (r + 1))
      in (if r = 0 then
            (case v_start (vehicles inp ! v) of
               Some p_index \<Rightarrow> uint (m p_index c_index) | None \<Rightarrow> 0)
          else uint (m (job_index inp (route ! (r - 1))) c_index))
       + (if r + 2 = length route then
            (case v_end (vehicles inp ! v) of
               Some n_index \<Rightarrow> uint (m after_index n_index) | None \<Rightarrow> 0)
          else uint (m after_index (job_index inp (route ! (r + 2))))))"

text \<open>The cache entries the operator reads reflect the current contents of both routes.\<close>

definition cache_coherent :: "('c::len word, 'd) Input \<Rightarrow> SolutionState \<Rightarrow> CrossExchange \<Rightarrow> bool" where
  "cache_coherent inp sol ce \<longleftrightarrow>
     s_vehicle ce < length (edge_costs_around_edge sol) \<and>
     t_vehicle ce < length (edge_costs_around_edge sol) \<and>
     s_rank ce < length (edge_costs_around_edge sol ! s_vehicle ce) \<and>
     t_rank ce < length (edge_costs_around_edge sol ! t_vehicle ce) \<and>
     edge_costs_around_edge sol ! s_vehicle ce ! s_rank ce
       = edge_cost_around inp (s_vehicle ce) (s_route ce) (s_rank ce) \<and>
     edge_costs_around_edge sol ! t_vehicle ce ! t_rank ce
       = edge_cost_around inp (t_vehicle ce) (t_route ce) (t_rank ce)"

subsection \<open>A concrete candidate\<close>

text \<open>
  Eight jobs at locations 1 to 8, the depot at location 0, an asymmetric matrix, and two
  vehicles: vehicle 0 starts and ends at the depot, vehicle 1 only starts there. The source
  route accepts the target edge in reversed order only.
\<close>

definition ex_input :: "(32 word, 32 word) Input" where
  "ex_input =
     \<lparr> jobs = map (\<lambda>j. \<lparr> index = Suc j, pickup = [0], delivery = [1],
                          tws = [\<lparr> tw_start = 0, tw_end = 100, tw_length = 100 \<rparr>] \<rparr>) [0..<8],
       vehicles = [\<lparr> capacity = [10], tw = \<lparr> tw_start = 0, tw_end = 100, tw_length = 100 \<rparr>,
                     v_start = Some 0, v_end = Some 0 \<rparr>,
                   \<lparr> capacity = [5], tw = \<lparr> tw_start = 0, tw_end = 50, tw_length = 50 \<rparr>,
                     v_start = Some 0, v_end = None \<rparr>],
       matrix = (\<lambda>i j. of_nat ((2 * i + 5 * j + i * j) mod 11 + 1)),
       vehicle_ok_with_job = (\<lambda>v j. True),
       zero_amount = [0] \<rparr>"

definition ex_source :: "(32 word, 32 word) RawRoute" where
  "ex_source =
     \<lparr> is_valid_addition_for_capacity_margins = (\<lambda>inp p d first_rank last_rank. True),
       is_valid_addition_for_capacity_inclusion =
         (\<lambda>inp d seg first_rank last_rank. hd seg < last seg) \<rparr>"

definition ex_target :: "(32 word, 32 word) RawRoute" where
  "ex_target =
     \<lparr> is_valid_addition_for_capacity_margins = (\<lambda>inp p d first_rank last_rank. True),
       is_valid_addition_for_capacity_inclusion = (\<lambda>inp d seg first_rank last_rank. True) \<rparr>"

definition ex_sol :: SolutionState where
  "ex_sol = \<lparr> edge_costs_around_edge = [[10, 10, 13], [18, 11, 10]] \<rparr>"

definition ex_ce :: CrossExchange where
  "ex_ce =
     \<lparr> s_route = [0, 1, 2, 3], s_vehicle = 0, s_rank = 1,
       t_route = [7, 6, 5, 4], t_vehicle = 1, t_rank = 1,
       stored_gain = 0, gain_computed = False, gain_upper_bound_computed = False,
       normal_s_gain = 0, reversed_s_gain = 0, normal_t_gain = 0, reversed_t_gain = 0,
       reverse_s_edge = False, reverse_t_edge = False,
       s_is_normal_valid = False, s_is_reverse_valid = False,
       t_is_normal_valid = False, t_is_reverse_valid = False \<rparr>"

text \<open>The candidate after \<open>gain_upper_bound\<close>, \<open>is_valid\<close> and \<open>compute_gain\<close>.\<close>

definition ex_ce1 :: CrossExchange where
  "ex_ce1 = ex_ce \<lparr> normal_s_gain := 7, reversed_s_gain := 4,
                    normal_t_gain := - 2, reversed_t_gain := 6,
                    gain_upper_bound_computed := True \<rparr>"

definition ex_ce2 :: CrossExchange where
  "ex_ce2 = ex_ce1 \<lparr> s_is_normal_valid := False, s_is_reverse_valid := True,
                      t_is_normal_valid := True, t_is_reverse_valid := True \<rparr>"

definition ex_ce3 :: CrossExchange where
  "ex_ce3 = ex_ce2 \<lparr> stored_gain := 10, reverse_s_edge := True, reverse_t_edge := True,
                      gain_computed := True \<rparr>"

subsection \<open>Auxiliary notions for the cost of a route around an edge\<close>

text \<open>
  For the edge at positions \<open>r\<close>, \<open>r + 1\<close> of a route: the locations visited before it
  (the start included) and after it (the end included), and the cost of the edge that
  links a location to them (0 when there is nothing to link to).
\<close>

definition before_edge :: "('c::len word, 'd) Input \<Rightarrow> Index \<Rightarrow> Index list \<Rightarrow> Index \<Rightarrow> Index list" where
  "before_edge inp v route r =
     depot (v_start (vehicles inp ! v)) @ map (job_index inp) (take r route)"

definition after_edge :: "('c::len word, 'd) Input \<Rightarrow> Index \<Rightarrow> Index list \<Rightarrow> Index \<Rightarrow> Index list" where
  "after_edge inp v route r =
     map (job_index inp) (drop (r + 2) route) @ depot (v_end (vehicles inp ! v))"

definition link_in :: "(Index \<Rightarrow> Index \<Rightarrow> 'c::len word) \<Rightarrow> Index list \<Rightarrow> Index \<Rightarrow> int" where
  "link_in m pre a = (if pre = [] then 0 else uint (m (last pre) a))"

definition link_out :: "(Index \<Rightarrow> Index \<Rightarrow> 'c::len word) \<Rightarrow> Index \<Rightarrow> Index list \<Rightarrow> int" where
  "link_out m b post = (if post = [] then 0 else uint (m b (hd post)))"

section \<open>Properties of the cross-exchange operator\<close>

subsection \<open>What \<open>apply\<close> does to the routes\<close>

lemma well_formed_ranks:
  assumes "well_formed ce"
  shows "Suc (s_rank ce) < length (s_route ce)" and "Suc (t_rank ce) < length (t_route ce)"
  using assms by (auto simp: well_formed_def ctor_asserts_def)

lemma apply_op_s_route:
  assumes "well_formed ce"
  shows "s_route (apply_op ce) =
     (s_route ce)
       [s_rank ce := (if reverse_t_edge ce then t_route ce ! (t_rank ce + 1)
                      else t_route ce ! t_rank ce),
        Suc (s_rank ce) := (if reverse_t_edge ce then t_route ce ! t_rank ce
                            else t_route ce ! (t_rank ce + 1))]"
  using assms
  by (auto simp: apply_op_def swap_between_def swap_in_def well_formed_def ctor_asserts_def
      Let_def list_update_swap)

lemma apply_op_t_route:
  assumes "well_formed ce"
  shows "t_route (apply_op ce) =
     (t_route ce)
       [t_rank ce := (if reverse_s_edge ce then s_route ce ! (s_rank ce + 1)
                      else s_route ce ! s_rank ce),
        Suc (t_rank ce) := (if reverse_s_edge ce then s_route ce ! s_rank ce
                            else s_route ce ! (s_rank ce + 1))]"
  using assms
  by (auto simp: apply_op_def swap_between_def swap_in_def well_formed_def ctor_asserts_def
      Let_def list_update_swap)

lemma mset_upd_add:
  "i < length xs \<Longrightarrow> add_mset (xs ! i) (mset (xs[i := v])) = add_mset v (mset xs)"
  by (simp add: mset_update)

lemma mset_upd2_add:
  assumes "Suc i < length xs"
  shows "mset (xs[i := a, Suc i := b]) + {#xs ! i, xs ! Suc i#} = mset xs + {#a, b#}"
proof -
  let ?ys = "xs[i := a]"
  have 1: "add_mset (?ys ! Suc i) (mset (?ys[Suc i := b])) = add_mset b (mset ?ys)"
    using assms by (intro mset_upd_add) simp
  have 2: "add_mset (xs ! i) (mset ?ys) = add_mset a (mset xs)"
    using assms by (intro mset_upd_add) simp
  have 3: "?ys ! Suc i = xs ! Suc i" by simp
  have "mset (xs[i := a, Suc i := b]) + {#xs ! i, xs ! Suc i#}
      = add_mset (xs ! i) (add_mset (?ys ! Suc i) (mset (?ys[Suc i := b])))"
    by (simp add: 3)
  also have "\<dots> = add_mset (xs ! i) (add_mset b (mset ?ys))" by (simp only: 1)
  also have "\<dots> = add_mset b (add_mset (xs ! i) (mset ?ys))" by simp
  also have "\<dots> = add_mset b (add_mset a (mset xs))" by (simp only: 2)
  finally show ?thesis by simp
qed

lemma apply_op_mset:
  assumes "well_formed ce"
  shows "mset (s_route (apply_op ce)) + mset (t_route (apply_op ce))
           = mset (s_route ce) + mset (t_route ce)"
proof -
  let ?s = "s_route ce" and ?t = "t_route ce" and ?i = "s_rank ce" and ?j = "t_rank ce"
  note i = well_formed_ranks(1)[OF assms] and j = well_formed_ranks(2)[OF assms]
  obtain a b where s': "s_route (apply_op ce) = ?s[?i := a, Suc ?i := b]"
    and ab: "{#a, b#} = {#?t ! ?j, ?t ! Suc ?j#}"
    using apply_op_s_route[OF assms] by (cases "reverse_t_edge ce") auto
  obtain c d where t': "t_route (apply_op ce) = ?t[?j := c, Suc ?j := d]"
    and cd: "{#c, d#} = {#?s ! ?i, ?s ! Suc ?i#}"
    using apply_op_t_route[OF assms] by (cases "reverse_s_edge ce") auto
  have "mset (s_route (apply_op ce)) + mset (t_route (apply_op ce))
          + ({#?s ! ?i, ?s ! Suc ?i#} + {#?t ! ?j, ?t ! Suc ?j#})
      = (mset (?s[?i := a, Suc ?i := b]) + {#?s ! ?i, ?s ! Suc ?i#})
          + (mset (?t[?j := c, Suc ?j := d]) + {#?t ! ?j, ?t ! Suc ?j#})"
    by (simp add: s' t')
  also have "\<dots> = (mset ?s + {#a, b#}) + (mset ?t + {#c, d#})"
    by (simp only: mset_upd2_add[OF i] mset_upd2_add[OF j])
  also have "\<dots> = mset ?s + mset ?t + ({#?s ! ?i, ?s ! Suc ?i#} + {#?t ! ?j, ?t ! Suc ?j#})"
    by (simp add: ab cd)
  finally show ?thesis by simp
qed

text \<open>
  Claim C4. On an operator that satisfies the constructor's assertions, \<open>apply\<close> leaves in
  the source route, at \<open>s_rank\<close> and \<open>s_rank + 1\<close>, the two jobs of the target edge (in
  reversed order iff \<open>reverse_t_edge\<close>), and in the target route, at \<open>t_rank\<close> and
  \<open>t_rank + 1\<close>, the two jobs of the source edge (in reversed order iff \<open>reverse_s_edge\<close>).
  Whatever the flags, the multiset of job ranks over both routes is preserved, each route
  keeps its length, and every other position of either route keeps its job.
\<close>

theorem apply_conserves_jobs:
  assumes "well_formed ce"
  shows "s_route (apply_op ce) =
           (s_route ce)
             [s_rank ce := (if reverse_t_edge ce then t_route ce ! (t_rank ce + 1)
                            else t_route ce ! t_rank ce),
              s_rank ce + 1 := (if reverse_t_edge ce then t_route ce ! t_rank ce
                                else t_route ce ! (t_rank ce + 1))]
       \<and> t_route (apply_op ce) =
           (t_route ce)
             [t_rank ce := (if reverse_s_edge ce then s_route ce ! (s_rank ce + 1)
                            else s_route ce ! s_rank ce),
              t_rank ce + 1 := (if reverse_s_edge ce then s_route ce ! s_rank ce
                                else s_route ce ! (s_rank ce + 1))]
       \<and> mset (s_route (apply_op ce)) + mset (t_route (apply_op ce))
           = mset (s_route ce) + mset (t_route ce)
       \<and> length (s_route (apply_op ce)) = length (s_route ce)
       \<and> length (t_route (apply_op ce)) = length (t_route ce)
       \<and> (\<forall>k. k \<noteq> s_rank ce \<and> k \<noteq> s_rank ce + 1
              \<longrightarrow> s_route (apply_op ce) ! k = s_route ce ! k)
       \<and> (\<forall>k. k \<noteq> t_rank ce \<and> k \<noteq> t_rank ce + 1
              \<longrightarrow> t_route (apply_op ce) ! k = t_route ce ! k)"
  using apply_op_s_route[OF assms] apply_op_t_route[OF assms] apply_op_mset[OF assms]
  by simp

theorem apply_conserves_jobs_witness:
  "well_formed ex_ce3
   \<and> s_route (apply_op ex_ce3) = [0, 5, 6, 3] \<and> t_route (apply_op ex_ce3) = [7, 2, 1, 4]
   \<and> mset (s_route (apply_op ex_ce3)) + mset (t_route (apply_op ex_ce3))
       = mset [0, 1, 2, 3] + mset [7, 6, 5, 4]"
proof -
  have wf: "well_formed ex_ce3"
    by (simp add: well_formed_def ctor_asserts_def ex_ce3_def ex_ce2_def ex_ce1_def ex_ce_def)
  show ?thesis
    using wf apply_conserves_jobs[OF wf]
    by (simp add: ex_ce3_def ex_ce2_def ex_ce1_def ex_ce_def)
qed

subsection \<open>The upper bound and the committed gain\<close>

lemma gain_upper_bound_fields:
  "gain_upper_bound inp sol ce = (u, ce1) \<Longrightarrow>
     u = max (normal_s_gain ce1) (reversed_s_gain ce1)
           + max (normal_t_gain ce1) (reversed_t_gain ce1)
     \<and> gain_upper_bound_computed ce1 \<and> stored_gain ce1 = stored_gain ce"
  by (auto simp: gain_upper_bound_def Let_def split: prod.splits)

lemma is_valid_keeps_gains:
  "is_valid inp source target ce = (b, ce') \<Longrightarrow>
     normal_s_gain ce' = normal_s_gain ce \<and> reversed_s_gain ce' = reversed_s_gain ce \<and>
     normal_t_gain ce' = normal_t_gain ce \<and> reversed_t_gain ce' = reversed_t_gain ce \<and>
     stored_gain ce' = stored_gain ce \<and>
     gain_upper_bound_computed ce' = gain_upper_bound_computed ce"
  by (auto simp: is_valid_def Let_def split: prod.splits if_splits)

lemma is_valid_true_flags:
  "is_valid inp source target ce = (True, ce') \<Longrightarrow>
     (s_is_normal_valid ce' \<or> s_is_reverse_valid ce') \<and>
     (t_is_normal_valid ce' \<or> t_is_reverse_valid ce')"
  by (auto simp: is_valid_def Let_def split: prod.splits if_splits)

lemma compute_gain_bound:
  assumes "gain_upper_bound_computed ce"
    and "s_is_normal_valid ce \<or> s_is_reverse_valid ce"
    and "t_is_normal_valid ce \<or> t_is_reverse_valid ce"
  shows "\<exists>ce'. compute_gain ce = Some ce' \<and>
      stored_gain ce' \<le> stored_gain ce + max (normal_s_gain ce) (reversed_s_gain ce)
                          + max (normal_t_gain ce) (reversed_t_gain ce)"
  using assms by (auto simp: compute_gain_def Let_def)

text \<open>
  Claim C3. On an operator whose \<open>stored_gain\<close> is still 0 (as the constructor leaves it),
  when \<open>gain_upper_bound\<close> returns \<open>u\<close> and \<open>is_valid\<close> then returns true, \<open>compute_gain\<close>
  passes its assertions and the gain it stores is at most \<open>u\<close>, whichever orientation it
  commits to on either side.
\<close>

theorem upper_bound_dominates_gain:
  assumes "stored_gain ce = 0"
    and "gain_upper_bound inp sol ce = (u, ce1)"
    and "is_valid inp source target ce1 = (True, ce2)"
  shows "\<exists>ce3. compute_gain ce2 = Some ce3 \<and> stored_gain ce3 \<le> u"
proof -
  note g = gain_upper_bound_fields[OF assms(2)]
  note k = is_valid_keeps_gains[OF assms(3)]
  note f = is_valid_true_flags[OF assms(3)]
  from compute_gain_bound[of ce2] g k f assms(1) show ?thesis by auto
qed

lemma ex_gain_upper_bound: "gain_upper_bound ex_input ex_sol ex_ce = (13, ex_ce1)"
  by (simp add: gain_upper_bound_def ex_input_def ex_sol_def ex_ce_def ex_ce1_def
      job_index_def Let_def)

lemma ex_is_valid: "is_valid ex_input ex_source ex_target ex_ce1 = (True, ex_ce2)"
  by (simp add: is_valid_def ex_input_def ex_source_def ex_target_def ex_ce_def ex_ce1_def
      ex_ce2_def Let_def)

lemma ex_compute_gain: "compute_gain ex_ce2 = Some ex_ce3"
  by (simp add: compute_gain_def ex_ce_def ex_ce1_def ex_ce2_def ex_ce3_def Let_def)

theorem upper_bound_dominates_gain_witness:
  "stored_gain ex_ce = 0 \<and> gain_upper_bound ex_input ex_sol ex_ce = (13, ex_ce1)
   \<and> is_valid ex_input ex_source ex_target ex_ce1 = (True, ex_ce2)
   \<and> compute_gain ex_ce2 = Some ex_ce3 \<and> stored_gain ex_ce3 = 10 \<and> stored_gain ex_ce3 \<le> 13"
proof -
  have z: "stored_gain ex_ce = 0" by (simp add: ex_ce_def)
  from upper_bound_dominates_gain[OF z ex_gain_upper_bound ex_is_valid]
  have "stored_gain ex_ce3 \<le> 13" by (simp add: ex_compute_gain)
  moreover have "stored_gain ex_ce3 = 10" by (simp add: ex_ce3_def)
  ultimately show ?thesis
    using z ex_gain_upper_bound ex_is_valid ex_compute_gain by simp
qed

subsection \<open>When \<open>is_valid\<close> holds\<close>

text \<open>
  Claim C5. \<open>is_valid\<close> returns true iff the four exchanged jobs are compatible with their
  destination vehicle, both capacity-margin queries pass (target edge into
  \<open>[s_rank, s_rank + 2)\<close> of the source, source edge into \<open>[t_rank, t_rank + 2)\<close> of the
  target) and on each side the capacity-inclusion query passes for the inserted segment in
  normal or in reversed order. When it returns true, the four flags hold the results of
  the four inclusion queries, and at least one flag is set on each side.
\<close>

theorem is_valid_iff:
  "(let sc = s_route ce ! s_rank ce; sa = s_route ce ! (s_rank ce + 1);
        tc = t_route ce ! t_rank ce; ta = t_route ce ! (t_rank ce + 1);
        t_pick = amount_add (pickup (jobs inp ! tc)) (pickup (jobs inp ! ta));
        t_del = amount_add (delivery (jobs inp ! tc)) (delivery (jobs inp ! ta));
        s_pick = amount_add (pickup (jobs inp ! sc)) (pickup (jobs inp ! sa));
        s_del = amount_add (delivery (jobs inp ! sc)) (delivery (jobs inp ! sa));
        sn = is_valid_addition_for_capacity_inclusion source inp t_del [tc, ta]
               (s_rank ce) (s_rank ce + 2);
        sr = is_valid_addition_for_capacity_inclusion source inp t_del [ta, tc]
               (s_rank ce) (s_rank ce + 2);
        tn = is_valid_addition_for_capacity_inclusion target inp s_del [sc, sa]
               (t_rank ce) (t_rank ce + 2);
        tr = is_valid_addition_for_capacity_inclusion target inp s_del [sa, sc]
               (t_rank ce) (t_rank ce + 2);
        (valid, ce') = is_valid inp source target ce
    in (valid \<longleftrightarrow>
           vehicle_ok_with_job inp (t_vehicle ce) sc \<and> vehicle_ok_with_job inp (t_vehicle ce) sa \<and>
           vehicle_ok_with_job inp (s_vehicle ce) tc \<and> vehicle_ok_with_job inp (s_vehicle ce) ta \<and>
           is_valid_addition_for_capacity_margins source inp t_pick t_del
             (s_rank ce) (s_rank ce + 2) \<and>
           is_valid_addition_for_capacity_margins target inp s_pick s_del
             (t_rank ce) (t_rank ce + 2) \<and>
           (sn \<or> sr) \<and> (tn \<or> tr))
       \<and> (valid \<longrightarrow>
           s_is_normal_valid ce' = sn \<and> s_is_reverse_valid ce' = sr \<and>
           t_is_normal_valid ce' = tn \<and> t_is_reverse_valid ce' = tr \<and>
           (s_is_normal_valid ce' \<or> s_is_reverse_valid ce') \<and>
           (t_is_normal_valid ce' \<or> t_is_reverse_valid ce')))"
  by (auto simp: is_valid_def Let_def split: prod.splits if_splits)

theorem is_valid_iff_witness:
  "fst (is_valid ex_input ex_source ex_target ex_ce1)
   \<and> \<not> s_is_normal_valid (snd (is_valid ex_input ex_source ex_target ex_ce1))
   \<and> s_is_reverse_valid (snd (is_valid ex_input ex_source ex_target ex_ce1))
   \<and> t_is_normal_valid (snd (is_valid ex_input ex_source ex_target ex_ce1))
   \<and> t_is_reverse_valid (snd (is_valid ex_input ex_source ex_target ex_ce1))"
  using is_valid_iff[of ex_ce1 ex_input ex_source ex_target]
  by (simp add: Let_def ex_input_def ex_source_def ex_target_def ex_ce1_def ex_ce_def
      split: prod.splits)

subsection \<open>Frame: which fields each method writes\<close>

lemma gain_upper_bound_frame:
  "gain_upper_bound inp sol ce = (u, ce') \<Longrightarrow>
     s_route ce' = s_route ce \<and> t_route ce' = t_route ce \<and>
     s_rank ce' = s_rank ce \<and> t_rank ce' = t_rank ce \<and>
     s_vehicle ce' = s_vehicle ce \<and> t_vehicle ce' = t_vehicle ce \<and>
     reverse_s_edge ce' = reverse_s_edge ce \<and> reverse_t_edge ce' = reverse_t_edge ce \<and>
     stored_gain ce' = stored_gain ce"
  by (auto simp: gain_upper_bound_def Let_def split: prod.splits)

lemma is_valid_frame:
  "is_valid inp source target ce = (b, ce') \<Longrightarrow>
     s_route ce' = s_route ce \<and> t_route ce' = t_route ce \<and>
     s_rank ce' = s_rank ce \<and> t_rank ce' = t_rank ce \<and>
     s_vehicle ce' = s_vehicle ce \<and> t_vehicle ce' = t_vehicle ce \<and>
     reverse_s_edge ce' = reverse_s_edge ce \<and> reverse_t_edge ce' = reverse_t_edge ce"
  by (auto simp: is_valid_def Let_def split: prod.splits if_splits)

lemma compute_gain_frame:
  assumes "compute_gain ce = Some ce'"
  shows "s_route ce' = s_route ce \<and> t_route ce' = t_route ce \<and>
         s_rank ce' = s_rank ce \<and> t_rank ce' = t_rank ce \<and>
         s_vehicle ce' = s_vehicle ce \<and> t_vehicle ce' = t_vehicle ce"
  using assms by (auto simp: compute_gain_def Let_def split: if_splits)

text \<open>
  Claim C10. \<open>gain_upper_bound\<close>, \<open>is_valid\<close> and \<open>compute_gain\<close> return the operator with
  both routes as they were: \<open>gain_upper_bound\<close> writes the four gains and its own flag,
  \<open>is_valid\<close> writes validity flags only, \<open>compute_gain\<close> writes \<open>stored_gain\<close>, the two
  orientation flags and \<open>gain_computed\<close>. \<open>Input\<close> and \<open>SolutionState\<close> are arguments that
  no method returns, so they cannot change. \<open>apply\<close> writes the two routes and nothing else.
\<close>

theorem only_apply_mutates_routes:
  "s_route (snd (gain_upper_bound inp sol ce)) = s_route ce
   \<and> t_route (snd (gain_upper_bound inp sol ce)) = t_route ce
   \<and> snd (gain_upper_bound inp sol ce)
        \<lparr> normal_s_gain := a, reversed_s_gain := b, normal_t_gain := c,
          reversed_t_gain := d, gain_upper_bound_computed := e \<rparr>
      = ce \<lparr> normal_s_gain := a, reversed_s_gain := b, normal_t_gain := c,
             reversed_t_gain := d, gain_upper_bound_computed := e \<rparr>
   \<and> s_route (snd (is_valid inp source target ce)) = s_route ce
   \<and> t_route (snd (is_valid inp source target ce)) = t_route ce
   \<and> snd (is_valid inp source target ce)
        \<lparr> s_is_normal_valid := f1, s_is_reverse_valid := f2,
          t_is_normal_valid := f3, t_is_reverse_valid := f4 \<rparr>
      = ce \<lparr> s_is_normal_valid := f1, s_is_reverse_valid := f2,
             t_is_normal_valid := f3, t_is_reverse_valid := f4 \<rparr>
   \<and> (\<forall>ce'. compute_gain ce = Some ce' \<longrightarrow>
          s_route ce' = s_route ce \<and> t_route ce' = t_route ce
        \<and> ce' \<lparr> stored_gain := g, reverse_s_edge := rs, reverse_t_edge := rt,
                gain_computed := gc \<rparr>
          = ce \<lparr> stored_gain := g, reverse_s_edge := rs, reverse_t_edge := rt,
                 gain_computed := gc \<rparr>)
   \<and> apply_op ce \<lparr> s_route := sr, t_route := tr \<rparr> = ce \<lparr> s_route := sr, t_route := tr \<rparr>"
proof -
  have 1: "s_route (snd (gain_upper_bound inp sol ce)) = s_route ce
      \<and> t_route (snd (gain_upper_bound inp sol ce)) = t_route ce"
    using gain_upper_bound_frame[of inp sol ce] by (cases "gain_upper_bound inp sol ce") simp
  have 2: "snd (gain_upper_bound inp sol ce)
        \<lparr> normal_s_gain := a, reversed_s_gain := b, normal_t_gain := c,
          reversed_t_gain := d, gain_upper_bound_computed := e \<rparr>
      = ce \<lparr> normal_s_gain := a, reversed_s_gain := b, normal_t_gain := c,
             reversed_t_gain := d, gain_upper_bound_computed := e \<rparr>"
    by (simp add: gain_upper_bound_def Let_def split_beta)
  have 3: "s_route (snd (is_valid inp source target ce)) = s_route ce
      \<and> t_route (snd (is_valid inp source target ce)) = t_route ce"
    using is_valid_frame[of inp source target ce]
    by (cases "is_valid inp source target ce") simp
  have 4: "snd (is_valid inp source target ce)
        \<lparr> s_is_normal_valid := f1, s_is_reverse_valid := f2,
          t_is_normal_valid := f3, t_is_reverse_valid := f4 \<rparr>
      = ce \<lparr> s_is_normal_valid := f1, s_is_reverse_valid := f2,
             t_is_normal_valid := f3, t_is_reverse_valid := f4 \<rparr>"
    by (simp add: is_valid_def Let_def split_beta)
  have 5: "\<forall>ce'. compute_gain ce = Some ce' \<longrightarrow>
          s_route ce' = s_route ce \<and> t_route ce' = t_route ce
        \<and> ce' \<lparr> stored_gain := g, reverse_s_edge := rs, reverse_t_edge := rt,
                gain_computed := gc \<rparr>
          = ce \<lparr> stored_gain := g, reverse_s_edge := rs, reverse_t_edge := rt,
                 gain_computed := gc \<rparr>"
    by (auto simp: compute_gain_def Let_def split: if_splits)
  have 6: "apply_op ce \<lparr> s_route := sr, t_route := tr \<rparr> = ce \<lparr> s_route := sr, t_route := tr \<rparr>"
    by (simp add: apply_op_def Let_def split: prod.splits)
  from 1 2 3 4 5 6 show ?thesis by blast
qed

theorem only_apply_mutates_routes_witness:
  "compute_gain ex_ce2 = Some ex_ce3
   \<and> s_route ex_ce3 = s_route ex_ce2 \<and> t_route ex_ce3 = t_route ex_ce2
   \<and> s_route (apply_op ex_ce3) \<noteq> s_route ex_ce3"
proof -
  have neq: "s_route (apply_op ex_ce3) \<noteq> s_route ex_ce3"
    by (simp add: apply_op_def swap_between_def swap_in_def Let_def
        ex_ce3_def ex_ce2_def ex_ce1_def ex_ce_def)
  have fr: "s_route ex_ce3 = s_route ex_ce2 \<and> t_route ex_ce3 = t_route ex_ce2"
    using only_apply_mutates_routes[where ce = ex_ce2] ex_compute_gain by blast
  show ?thesis
    using ex_compute_gain fr neq by blast
qed

subsection \<open>The committed gain is the cost decrease\<close>

lemma path_cost_append:
  "path_cost m (xs @ zs) = path_cost m xs
      + (if xs = [] \<or> zs = [] then 0 else uint (m (last xs) (hd zs))) + path_cost m zs"
  by (induction m xs rule: path_cost.induct) (cases zs; simp)+

lemma path_cost_around:
  "path_cost m (pre @ a # b # post) =
     path_cost m pre + link_in m pre a + uint (m a b) + link_out m b post + path_cost m post"
  by (cases post) (simp_all add: path_cost_append[of m pre] link_in_def link_out_def)

lemma upd2_split:
  assumes "Suc r < length xs"
  shows "xs[r := a, Suc r := b] = take r xs @ [a, b] @ drop (r + 2) xs"
proof -
  have "xs[r := a, Suc r := b]
      = (take r xs @ xs ! r # xs ! Suc r # drop (Suc (Suc r)) xs)[r := a, Suc r := b]"
    using assms by (simp add: Cons_nth_drop_Suc)
  also have "\<dots> = take r xs @ [a, b] @ drop (r + 2) xs"
    using assms by (simp add: list_update_append)
  finally show ?thesis .
qed

lemma route_cost_upd2:
  assumes "Suc r < length route"
  shows "route_cost inp v (route[r := a, Suc r := b]) =
     path_cost (matrix inp) (before_edge inp v route r)
     + link_in (matrix inp) (before_edge inp v route r) (job_index inp a)
     + uint (matrix inp (job_index inp a) (job_index inp b))
     + link_out (matrix inp) (job_index inp b) (after_edge inp v route r)
     + path_cost (matrix inp) (after_edge inp v route r)"
proof -
  have ne: "route[r := a, Suc r := b] \<noteq> []" using assms by auto
  have "depot (v_start (vehicles inp ! v)) @ map (job_index inp) (route[r := a, Suc r := b])
          @ depot (v_end (vehicles inp ! v))
      = before_edge inp v route r @ job_index inp a # job_index inp b # after_edge inp v route r"
    by (simp add: upd2_split[OF assms] before_edge_def after_edge_def)
  then show ?thesis
    using ne by (simp add: route_cost_def path_cost_around)
qed

lemma route_cost_split:
  assumes "Suc r < length route"
  shows "route_cost inp v route =
     path_cost (matrix inp) (before_edge inp v route r)
     + link_in (matrix inp) (before_edge inp v route r) (job_index inp (route ! r))
     + uint (matrix inp (job_index inp (route ! r)) (job_index inp (route ! Suc r)))
     + link_out (matrix inp) (job_index inp (route ! Suc r)) (after_edge inp v route r)
     + path_cost (matrix inp) (after_edge inp v route r)"
  using route_cost_upd2[OF assms, of inp v "route ! r" "route ! Suc r"] by simp

lemma last_take_Suc: "k < length xs \<Longrightarrow> last (take (Suc k) xs) = xs ! k"
  by (simp add: take_Suc_conv_app_nth)

lemma link_in_before:
  assumes "Suc r < length route"
  shows "link_in (matrix inp) (before_edge inp v route r) a =
     (if r = 0 then
        (case v_start (vehicles inp ! v) of Some p \<Rightarrow> uint (matrix inp p a) | None \<Rightarrow> 0)
      else uint (matrix inp (job_index inp (route ! (r - 1))) a))"
proof (cases r)
  case 0
  then show ?thesis by (simp add: link_in_def before_edge_def depot_def split: option.splits)
next
  case (Suc k)
  then have "take r route \<noteq> []" using assms by auto
  moreover have "last (take r route) = route ! k"
    using Suc assms by (simp add: last_take_Suc)
  ultimately show ?thesis
    using Suc by (simp add: link_in_def before_edge_def last_map)
qed

lemma link_out_after:
  assumes "Suc r < length route"
  shows "link_out (matrix inp) b (after_edge inp v route r) =
     (if r + 2 = length route then
        (case v_end (vehicles inp ! v) of Some n \<Rightarrow> uint (matrix inp b n) | None \<Rightarrow> 0)
      else uint (matrix inp b (job_index inp (route ! (r + 2)))))"
proof (cases "r + 2 = length route")
  case True
  then show ?thesis by (simp add: link_out_def after_edge_def depot_def split: option.splits)
next
  case False
  then have "r + 2 < length route" using assms by simp
  then have "drop (r + 2) route \<noteq> []" "hd (drop (r + 2) route) = route ! (r + 2)"
    by (simp_all add: hd_drop_conv_nth)
  then show ?thesis
    using False by (simp add: link_out_def after_edge_def hd_map)
qed

lemma edge_cost_around_links:
  assumes "Suc r < length route"
  shows "edge_cost_around inp v route r =
     link_in (matrix inp) (before_edge inp v route r) (job_index inp (route ! r))
     + link_out (matrix inp) (job_index inp (route ! Suc r)) (after_edge inp v route r)"
  by (simp add: edge_cost_around_def Let_def link_in_before[OF assms] link_out_after[OF assms])

text \<open>The two branch pairs of \<open>gain_upper_bound\<close>, once \<open>let\<close> is unfolded.\<close>

lemma previous_costs_links:
  assumes "Suc r < length route"
  shows "(if r = 0 then
            (case v_start (vehicles inp ! v) of
               Some p_index \<Rightarrow> (uint (matrix inp p_index a), uint (matrix inp p_index b))
             | None \<Rightarrow> (0, 0))
          else (uint (matrix inp (job_index inp (route ! (r - 1))) a),
                uint (matrix inp (job_index inp (route ! (r - 1))) b)))
       = (link_in (matrix inp) (before_edge inp v route r) a,
          link_in (matrix inp) (before_edge inp v route r) b)"
  by (simp add: link_in_before[OF assms] split: option.splits)

lemma next_costs_links:
  assumes "Suc r < length route"
  shows "(if r = length route - 2 then
            (case v_end (vehicles inp ! v) of
               Some n_index \<Rightarrow> (uint (matrix inp b n_index), uint (matrix inp a n_index))
             | None \<Rightarrow> (0, 0))
          else (uint (matrix inp b (job_index inp (route ! (r + 2)))),
                uint (matrix inp a (job_index inp (route ! (r + 2))))))
       = (link_out (matrix inp) b (after_edge inp v route r),
          link_out (matrix inp) a (after_edge inp v route r))"
proof -
  have "(r = length route - 2) = (r + 2 = length route)" using assms by auto
  then show ?thesis
    by (simp add: link_out_after[OF assms] split: option.splits)
qed

lemma gain_upper_bound_links:
  assumes wf: "well_formed ce"
  shows "gain_upper_bound inp sol ce =
    (let m = matrix inp;
         s = job_index inp (s_route ce ! s_rank ce);
         s' = job_index inp (s_route ce ! (s_rank ce + 1));
         t = job_index inp (t_route ce ! t_rank ce);
         t' = job_index inp (t_route ce ! (t_rank ce + 1));
         pre_s = before_edge inp (s_vehicle ce) (s_route ce) (s_rank ce);
         post_s = after_edge inp (s_vehicle ce) (s_route ce) (s_rank ce);
         pre_t = before_edge inp (t_vehicle ce) (t_route ce) (t_rank ce);
         post_t = after_edge inp (t_vehicle ce) (t_route ce) (t_rank ce);
         ns = edge_costs_around_edge sol ! s_vehicle ce ! s_rank ce
                - link_in m pre_s t - link_out m t' post_s;
         rs = edge_costs_around_edge sol ! s_vehicle ce ! s_rank ce
                + (uint (m t t') - uint (m t' t)) - link_in m pre_s t' - link_out m t post_s;
         nt = edge_costs_around_edge sol ! t_vehicle ce ! t_rank ce
                - link_in m pre_t s - link_out m s' post_t;
         rt = edge_costs_around_edge sol ! t_vehicle ce ! t_rank ce
                + (uint (m s s') - uint (m s' s)) - link_in m pre_t s' - link_out m s post_t
     in (max ns rs + max nt rt,
         ce \<lparr> normal_s_gain := ns, reversed_s_gain := rs,
              normal_t_gain := nt, reversed_t_gain := rt,
              gain_upper_bound_computed := True \<rparr>))"
proof -
  note i = well_formed_ranks(1)[OF wf] and j = well_formed_ranks(2)[OF wf]
  show ?thesis
    unfolding gain_upper_bound_def Let_def
      previous_costs_links[OF i] previous_costs_links[OF j]
      next_costs_links[OF i] next_costs_links[OF j]
    by simp
qed

lemma compute_gain_result:
  assumes "compute_gain ce = Some ce'" "\<not> reverse_s_edge ce" "\<not> reverse_t_edge ce"
  shows "stored_gain ce' = stored_gain ce
           + (if reverse_t_edge ce' then reversed_s_gain ce else normal_s_gain ce)
           + (if reverse_s_edge ce' then reversed_t_gain ce else normal_t_gain ce)"
  using assms by (auto simp: compute_gain_def Let_def split: if_splits)

lemma CrossExchange_new_fresh:
  assumes "CrossExchange_new sr sv srk tr tv trk = Some ce"
  shows "well_formed ce" "s_route ce = sr" "t_route ce = tr"
    "s_vehicle ce = sv" "t_vehicle ce = tv" "s_rank ce = srk" "t_rank ce = trk"
    "stored_gain ce = 0" "\<not> reverse_s_edge ce" "\<not> reverse_t_edge ce"
  using assms by (auto simp: CrossExchange_new_def well_formed_def split: if_splits)

text \<open>
  Claim C1. Take an operator as its constructor makes it, with cache entries that reflect
  both routes. After \<open>gain_upper_bound\<close>, an \<open>is_valid\<close> that returns true, and
  \<open>compute_gain\<close>, the travel cost of the two routes before \<open>apply\<close> minus their travel
  cost after it (each computed from the matrix alone, start and end edges included) is
  exactly \<open>stored_gain\<close>.
\<close>

theorem gain_is_cost_decrease:
  fixes inp :: "('c::len word, 'd) Input"
  assumes new: "CrossExchange_new sr sv srk tr tv trk = Some ce"
    and coh: "cache_coherent inp sol ce"
    and gub: "gain_upper_bound inp sol ce = (u, ce1)"
    and val: "is_valid inp source target ce1 = (True, ce2)"
    and cg: "compute_gain ce2 = Some ce3"
  shows "route_cost inp sv sr + route_cost inp tv tr
           - (route_cost inp sv (s_route (apply_op ce3))
              + route_cost inp tv (t_route (apply_op ce3)))
         = stored_gain ce3"
proof -
  note fr = CrossExchange_new_fresh[OF new]
  note f1 = gain_upper_bound_frame[OF gub]
  note f2 = is_valid_frame[OF val]
  note f3 = compute_gain_frame[OF cg]
  note k2 = is_valid_keeps_gains[OF val]
  have i: "Suc srk < length sr" and j: "Suc trk < length tr"
    using well_formed_ranks[OF fr(1)] fr by simp_all
  have wf3: "well_formed ce3"
    using fr(1) f1 f2 f3 by (simp add: well_formed_def)
  define m where "m = matrix inp"
  define pre_s where "pre_s = before_edge inp sv sr srk"
  define post_s where "post_s = after_edge inp sv sr srk"
  define pre_t where "pre_t = before_edge inp tv tr trk"
  define post_t where "post_t = after_edge inp tv tr trk"
  define s where "s = job_index inp (sr ! srk)"
  define s' where "s' = job_index inp (sr ! Suc srk)"
  define t where "t = job_index inp (tr ! trk)"
  define t' where "t' = job_index inp (tr ! Suc trk)"
  define Es where "Es = link_in m pre_s s + link_out m s' post_s"
  define Et where "Et = link_in m pre_t t + link_out m t' post_t"
  have cache: "edge_costs_around_edge sol ! sv ! srk = Es"
    "edge_costs_around_edge sol ! tv ! trk = Et"
    using coh edge_cost_around_links[OF i, of inp sv] edge_cost_around_links[OF j, of inp tv]
    by (simp_all add: cache_coherent_def fr Es_def Et_def m_def pre_s_def post_s_def
        pre_t_def post_t_def s_def s'_def t_def t'_def)
  have gains: "normal_s_gain ce2 = Es - link_in m pre_s t - link_out m t' post_s"
    "reversed_s_gain ce2 =
       Es + (uint (m t t') - uint (m t' t)) - link_in m pre_s t' - link_out m t post_s"
    "normal_t_gain ce2 = Et - link_in m pre_t s - link_out m s' post_t"
    "reversed_t_gain ce2 =
       Et + (uint (m s s') - uint (m s' s)) - link_in m pre_t s' - link_out m s post_t"
    using gub k2 unfolding gain_upper_bound_links[OF fr(1)]
    by (auto simp: Let_def fr cache m_def pre_s_def post_s_def pre_t_def post_t_def
        s_def s'_def t_def t'_def)
  have g: "stored_gain ce3 =
        (if reverse_t_edge ce3 then reversed_s_gain ce2 else normal_s_gain ce2)
      + (if reverse_s_edge ce3 then reversed_t_gain ce2 else normal_t_gain ce2)"
    using compute_gain_result[OF cg] f1 f2 k2 fr by simp
  have before_s: "route_cost inp sv sr =
      path_cost m pre_s + link_in m pre_s s + uint (m s s') + link_out m s' post_s
        + path_cost m post_s"
    unfolding m_def pre_s_def post_s_def s_def s'_def by (rule route_cost_split[OF i])
  have before_t: "route_cost inp tv tr =
      path_cost m pre_t + link_in m pre_t t + uint (m t t') + link_out m t' post_t
        + path_cost m post_t"
    unfolding m_def pre_t_def post_t_def t_def t'_def by (rule route_cost_split[OF j])
  have after_s: "route_cost inp sv (s_route (apply_op ce3)) =
      (if reverse_t_edge ce3
       then path_cost m pre_s + link_in m pre_s t' + uint (m t' t) + link_out m t post_s
              + path_cost m post_s
       else path_cost m pre_s + link_in m pre_s t + uint (m t t') + link_out m t' post_s
              + path_cost m post_s)"
    unfolding apply_op_s_route[OF wf3] m_def pre_s_def post_s_def t_def t'_def
    using route_cost_upd2[OF i, of inp sv] f1 f2 f3 fr by simp
  have after_t: "route_cost inp tv (t_route (apply_op ce3)) =
      (if reverse_s_edge ce3
       then path_cost m pre_t + link_in m pre_t s' + uint (m s' s) + link_out m s post_t
              + path_cost m post_t
       else path_cost m pre_t + link_in m pre_t s + uint (m s s') + link_out m s' post_t
              + path_cost m post_t)"
    unfolding apply_op_t_route[OF wf3] m_def pre_t_def post_t_def s_def s'_def
    using route_cost_upd2[OF j, of inp tv] f1 f2 f3 fr by simp
  show ?thesis
    unfolding g gains before_s before_t after_s after_t Es_def Et_def by simp
qed

lemma ex_new: "CrossExchange_new [0, 1, 2, 3] 0 1 [7, 6, 5, 4] 1 1 = Some ex_ce"
  by (simp add: CrossExchange_new_def ctor_asserts_def ex_ce_def)

lemma ex_cache_coherent: "cache_coherent ex_input ex_sol ex_ce"
  by (simp add: cache_coherent_def edge_cost_around_def ex_input_def ex_sol_def ex_ce_def
      job_index_def Let_def)

theorem gain_is_cost_decrease_witness:
  "CrossExchange_new [0, 1, 2, 3] 0 1 [7, 6, 5, 4] 1 1 = Some ex_ce
   \<and> cache_coherent ex_input ex_sol ex_ce
   \<and> gain_upper_bound ex_input ex_sol ex_ce = (13, ex_ce1)
   \<and> is_valid ex_input ex_source ex_target ex_ce1 = (True, ex_ce2)
   \<and> compute_gain ex_ce2 = Some ex_ce3
   \<and> route_cost ex_input 0 [0, 1, 2, 3] + route_cost ex_input 1 [7, 6, 5, 4]
        - (route_cost ex_input 0 (s_route (apply_op ex_ce3))
           + route_cost ex_input 1 (t_route (apply_op ex_ce3)))
      = 10"
proof -
  have "stored_gain ex_ce3 = 10" by (simp add: ex_ce3_def)
  then show ?thesis
    using gain_is_cost_decrease[OF ex_new ex_cache_coherent ex_gain_upper_bound ex_is_valid
        ex_compute_gain]
      ex_new ex_cache_coherent ex_gain_upper_bound ex_is_valid ex_compute_gain
    by simp
qed

section \<open>Insertion heuristics\<close>

subsection \<open>What the heuristics are generic in\<close>

datatype INIT = NONE | HIGHER_AMOUNT | NEAREST | FURTHEST | EARLIEST_DEADLINE

text \<open>
  \<open>basic\<close> and \<open>dynamic_vehicle_choice\<close> are templates over the vector of routes \<open>T\<close>; they
  are instantiated with \<open>RawRoute\<close> and \<open>TWRoute\<close>, whose code is not part of the sources at
  hand. A route class is a type \<open>'r\<close> of route objects with the members the templates
  use: the constructor, the \<open>route\<close> vector (\<open>size()\<close> is its length), \<open>add\<close>,
  \<open>update_amounts\<close> and the two validity queries.
\<close>

record ('c, 'd, 'r) RouteClass =
  new_route :: "('c, 'd) Input \<Rightarrow> Index \<Rightarrow> 'r"
  route_of :: "'r \<Rightarrow> Index list"
  add :: "'r \<Rightarrow> ('c, 'd) Input \<Rightarrow> Index \<Rightarrow> Index \<Rightarrow> 'r"
  update_amounts :: "'r \<Rightarrow> ('c, 'd) Input \<Rightarrow> 'r"
  is_valid_addition_for_capacity ::
    "'r \<Rightarrow> ('c, 'd) Input \<Rightarrow> Amount \<Rightarrow> Amount \<Rightarrow> Index \<Rightarrow> bool"
  is_valid_addition_for_tw :: "'r \<Rightarrow> ('c, 'd) Input \<Rightarrow> Index \<Rightarrow> Index \<Rightarrow> bool"

text \<open>
  Modelled from the spec: \<open>add(input, job_rank, position)\<close> inserts \<open>job_rank\<close> at
  \<open>position\<close>; \<open>update_amounts\<close> refreshes cached amounts and leaves the visit sequence
  alone; a route starts empty.
\<close>

definition route_contract :: "('c, 'd, 'r) RouteClass \<Rightarrow> bool" where
  "route_contract T \<longleftrightarrow>
     (\<forall>inp v. route_of T (new_route T inp v) = []) \<and>
     (\<forall>r inp j pos. route_of T (add T r inp j pos)
                       = take pos (route_of T r) @ [j] @ drop pos (route_of T r)) \<and>
     (\<forall>r inp. route_of T (update_amounts T r inp) = route_of T r)"

text \<open>
  The heuristics compare \<open>float\<close> values. The type of floats is a parameter \<open>'f\<close> with a
  linear order (no NaN), together with the conversions and operations the code applies:
  the conversion of the \<open>Gain\<close> that \<open>addition_cost\<close> returns, \<open>static_cast<float>\<close> of a
  cost, multiplication, subtraction, and \<open>std::numeric_limits<float>::max()\<close>.
\<close>

record ('c, 'f) Float =
  of_gain :: "Gain \<Rightarrow> 'f"
  of_cost :: "'c \<Rightarrow> 'f"
  fmul :: "'f \<Rightarrow> 'f \<Rightarrow> 'f"
  fsub :: "'f \<Rightarrow> 'f \<Rightarrow> 'f"
  float_max :: 'f

text \<open>
  Modelled from the spec: \<open>utils::addition_cost\<close> (its header is not part of the sources at
  hand) returns the increase in travel cost from inserting \<open>job_rank\<close> at \<open>rank\<close>: on an
  empty route the edges from the start and to the end; at a boundary position the depot
  edge replaces the missing neighbour; in the interior
  \<open>cost(prev \<rightarrow> job) + cost(job \<rightarrow> next) - cost(prev \<rightarrow> next)\<close>.
\<close>

definition addition_cost ::
  "('c::len word, 'd) Input \<Rightarrow> (Index \<Rightarrow> Index \<Rightarrow> 'c word) \<Rightarrow> Index \<Rightarrow> 'd Vehicle
     \<Rightarrow> Index list \<Rightarrow> Index \<Rightarrow> Gain" where
  "addition_cost inp m job_rank v route rank =
     (let j = job_index inp job_rank in
      if route = [] then
        (case v_start v of Some s \<Rightarrow> uint (m s j) | None \<Rightarrow> 0)
        + (case v_end v of Some e \<Rightarrow> uint (m j e) | None \<Rightarrow> 0)
      else if rank = length route then
        (let p = job_index inp (route ! (rank - 1)) in
         uint (m p j)
         + (case v_end v of Some e \<Rightarrow> uint (m j e) - uint (m p e) | None \<Rightarrow> 0))
      else if rank = 0 then
        (let n = job_index inp (route ! rank) in
         uint (m j n)
         + (case v_start v of Some s \<Rightarrow> uint (m s j) - uint (m s n) | None \<Rightarrow> 0))
      else
        (let p = job_index inp (route ! (rank - 1));
             n = job_index inp (route ! rank)
         in uint (m p j) + uint (m j n) - uint (m p n)))"

subsection \<open>Library pieces: \<open>std::set\<close>, \<open>std::stable_sort\<close>, \<open>std::min_element\<close>\<close>

text \<open>
  \<open>std::set<Index>\<close> is the strictly ascending list of its elements, which is the order a
  range-for visits them in.
\<close>

definition set_erase :: "Index \<Rightarrow> Index list \<Rightarrow> Index list" where
  "set_erase x xs = removeAll x xs"

text \<open>
  \<open>std::stable_sort(first, last, comp)\<close> is library code. The model follows the algorithm of
  GNU libstdc++ (\<open>bits/stl_algo.h\<close>) with its temporary buffer obtained, which is what runs
  unless memory is exhausted: the range is cut at \<open>middle = first + (len + 1) / 2\<close>, each
  half is sorted by \<open>__merge_sort_with_buffer\<close>, and \<open>__merge_adaptive\<close> merges the two
  halves. With a comparator that is a strict weak order the result is the stable sorted
  order; with any other comparator it is what these steps produce.
\<close>

text \<open>
  \<open>__unguarded_linear_insert\<close>: the sorted elements in front of \<open>val\<close> are read from the last
  one backwards (the list is that front part, last element first, and so is the result);
  \<open>val\<close> moves in front of every element that \<open>comp\<close> puts it before, up to the first one
  where \<open>comp\<close> does not. The loop has no bound check: it is run only for a \<open>val\<close> that
  \<open>comp\<close> does not put before the first element of the range, where it stops at the
  latest, so the case of the empty list is never reached.
\<close>

fun unguarded_linear_insert :: "('a \<Rightarrow> 'a \<Rightarrow> bool) \<Rightarrow> 'a \<Rightarrow> 'a list \<Rightarrow> 'a list" where
  "unguarded_linear_insert cmp val [] = [val]"
| "unguarded_linear_insert cmp val (y # earlier) =
     (if cmp val y then y # unguarded_linear_insert cmp val earlier else val # y # earlier)"

text \<open>
  One turn of the loop of \<open>__insertion_sort\<close>: an element that \<open>comp\<close> puts before the first
  element of the sorted front moves to the very front, without a look at the elements in
  between; any other element is inserted from the back.
\<close>

definition insertion_step :: "('a \<Rightarrow> 'a \<Rightarrow> bool) \<Rightarrow> 'a \<Rightarrow> 'a list \<Rightarrow> 'a list" where
  "insertion_step cmp val front =
     (if cmp val (hd front) then val # front
      else rev (unguarded_linear_insert cmp val (rev front)))"

fun insertion_sort :: "('a \<Rightarrow> 'a \<Rightarrow> bool) \<Rightarrow> 'a list \<Rightarrow> 'a list" where
  "insertion_sort cmp [] = []"
| "insertion_sort cmp (x # xs) = fold (insertion_step cmp) xs [x]"

text \<open>
  \<open>__chunk_insertion_sort\<close> with \<open>_S_chunk_size = 7\<close>: chunks of seven elements, and what is
  left behind the last full chunk, are sorted by insertion. The result is the list of the
  sorted runs.
\<close>

fun chunk_insertion_sort :: "('a \<Rightarrow> 'a \<Rightarrow> bool) \<Rightarrow> 'a list \<Rightarrow> 'a list list" where
  "chunk_insertion_sort cmp xs =
     (if 7 \<le> length xs
      then insertion_sort cmp (take 7 xs) # chunk_insertion_sort cmp (drop 7 xs)
      else if xs = [] then [] else [insertion_sort cmp xs])"

declare chunk_insertion_sort.simps [simp del]

text \<open>
  \<open>__move_merge\<close>: the element of the second run goes first only when \<open>comp\<close> puts it before
  the element of the first run.
\<close>

fun move_merge :: "('a \<Rightarrow> 'a \<Rightarrow> bool) \<Rightarrow> 'a list \<Rightarrow> 'a list \<Rightarrow> 'a list" where
  "move_merge cmp [] ys = ys"
| "move_merge cmp (x # xs) [] = x # xs"
| "move_merge cmp (x # xs) (y # ys) =
     (if cmp y x then y # move_merge cmp (x # xs) ys
      else x # move_merge cmp xs (y # ys))"

text \<open>
  \<open>__merge_sort_loop\<close>: one pass that merges the runs two by two; a run without a
  neighbour is moved as it is.
\<close>

fun merge_sort_loop :: "('a \<Rightarrow> 'a \<Rightarrow> bool) \<Rightarrow> 'a list list \<Rightarrow> 'a list list" where
  "merge_sort_loop cmp (a # b # runs) = move_merge cmp a b # merge_sort_loop cmp runs"
| "merge_sort_loop cmp runs = runs"

lemma length_merge_sort_loop: "length (merge_sort_loop cmp runs) \<le> length runs"
  by (induction cmp runs rule: merge_sort_loop.induct) auto

text \<open>
  The loop of \<open>__merge_sort_with_buffer\<close>: while the step size is below the length, that
  is while there is more than one run, a pass into the buffer and a pass back.
\<close>

function merge_runs :: "('a \<Rightarrow> 'a \<Rightarrow> bool) \<Rightarrow> 'a list list \<Rightarrow> 'a list" where
  "merge_runs cmp [] = []"
| "merge_runs cmp [a] = a"
| "merge_runs cmp (a # b # runs) =
     merge_runs cmp (merge_sort_loop cmp (merge_sort_loop cmp (a # b # runs)))"
  by pat_completeness auto
termination
proof (relation "measure (\<lambda>(cmp, runs). length runs)")
  show "wf (measure (\<lambda>(cmp :: 'a \<Rightarrow> 'a \<Rightarrow> bool, runs :: 'a list list). length runs))"
    by simp
next
  fix cmp :: "'a \<Rightarrow> 'a \<Rightarrow> bool" and a b :: "'a list" and runs :: "'a list list"
  have "length (merge_sort_loop cmp (merge_sort_loop cmp (a # b # runs)))
          \<le> length (merge_sort_loop cmp (a # b # runs))"
    by (rule length_merge_sort_loop)
  also have "\<dots> \<le> Suc (length runs)"
    using length_merge_sort_loop[of cmp runs] by simp
  finally show "((cmp, merge_sort_loop cmp (merge_sort_loop cmp (a # b # runs))),
                 (cmp, a # b # runs)) \<in> measure (\<lambda>(cmp, runs). length runs)"
    by simp
qed

definition merge_sort_with_buffer :: "('a \<Rightarrow> 'a \<Rightarrow> bool) \<Rightarrow> 'a list \<Rightarrow> 'a list" where
  "merge_sort_with_buffer cmp xs = merge_runs cmp (chunk_insertion_sort cmp xs)"

text \<open>
  \<open>__move_merge_adaptive_backward\<close> fills the range from its end. Both runs are read from
  their last element backwards and so is the result: the last element of the first run
  goes behind the last element of the second run when \<open>comp\<close> puts the latter first.
\<close>

fun move_merge_backward :: "('a \<Rightarrow> 'a \<Rightarrow> bool) \<Rightarrow> 'a list \<Rightarrow> 'a list \<Rightarrow> 'a list" where
  "move_merge_backward cmp [] ys = ys"
| "move_merge_backward cmp (x # xs) [] = x # xs"
| "move_merge_backward cmp (x # xs) (y # ys) =
     (if cmp y x then x # move_merge_backward cmp xs (y # ys)
      else y # move_merge_backward cmp (x # xs) ys)"

text \<open>
  \<open>__merge_adaptive\<close>: the shorter run is moved to the buffer; the merge runs forwards
  when that is the first run and backwards when it is the second.
\<close>

definition merge_adaptive :: "('a \<Rightarrow> 'a \<Rightarrow> bool) \<Rightarrow> 'a list \<Rightarrow> 'a list \<Rightarrow> 'a list" where
  "merge_adaptive cmp a b =
     (if length a \<le> length b then move_merge cmp a b
      else rev (move_merge_backward cmp (rev a) (rev b)))"

definition stable_sort :: "('a \<Rightarrow> 'a \<Rightarrow> bool) \<Rightarrow> 'a list \<Rightarrow> 'a list" where
  "stable_sort cmp xs =
     (if xs = [] then []
      else let middle = (length xs + 1) div 2
           in merge_adaptive cmp (merge_sort_with_buffer cmp (take middle xs))
                (merge_sort_with_buffer cmp (drop middle xs)))"

text \<open>
  \<open>std::min_element(first, last, comp)\<close> on a non-empty range: the scan starts with the
  first position as the smallest and moves to a later position only when \<open>comp\<close> puts its
  element before the smallest so far. The result is a position (the iterator).
\<close>

definition min_element :: "('a \<Rightarrow> 'a \<Rightarrow> bool) \<Rightarrow> 'a list \<Rightarrow> nat" where
  "min_element cmp xs =
     fold (\<lambda>i smallest. if cmp (xs ! i) (xs ! smallest) then i else smallest)
       [1..<length xs] 0"

definition erase_at :: "nat \<Rightarrow> 'a list \<Rightarrow> 'a list" where
  "erase_at i xs = take i xs @ drop (Suc i) xs"

subsection \<open>Pieces shared by both heuristics\<close>

text \<open>
  The comparator of the vehicle ordering: \<open>lhs\<close> goes first when its capacity is higher,
  or the capacities are equal and its time window is longer.
\<close>

definition vehicle_higher :: "('c, 'd::len word) Input \<Rightarrow> Index \<Rightarrow> Index \<Rightarrow> bool" where
  "vehicle_higher inp lhs rhs =
     (let v_lhs = vehicles inp ! lhs; v_rhs = vehicles inp ! rhs
      in amount_lt (capacity v_rhs) (capacity v_lhs) \<or>
         (capacity v_lhs = capacity v_rhs \<and> tw_length (tw v_lhs) > tw_length (tw v_rhs)))"

text \<open>The cost of fetching a job in an empty route of vehicle \<open>v\<close>, in \<open>Cost\<close> arithmetic.\<close>

definition empty_route_cost :: "('c::len word, 'd) Input \<Rightarrow> 'd Vehicle \<Rightarrow> Index \<Rightarrow> 'c word" where
  "empty_route_cost inp v j =
     (let m = matrix inp;
          j_index = index (jobs inp ! j);
          current_cost = 0;
          current_cost = (case v_start v of Some s \<Rightarrow> current_cost + m s j_index
                          | None \<Rightarrow> current_cost);
          current_cost = (case v_end v of Some e \<Rightarrow> current_cost + m j_index e
                          | None \<Rightarrow> current_cost)
      in current_cost)"

text \<open>The local variables of the init step.\<close>

record ('c, 'd) init_state =
  init_ok :: bool
  higher_amount :: Amount
  furthest_cost :: 'c
  nearest_cost :: 'c
  earliest_deadline :: 'd
  best_job_rank :: Index

text \<open>
  One iteration of the init loop for \<open>job_rank\<close>. \<open>skip\<close> is the extra \<open>continue\<close>
  condition of \<open>dynamic_vehicle_choice\<close> (never true in \<open>basic\<close>); \<open>cost_of\<close> is
  \<open>costs[job_rank]\<close> in \<open>basic\<close> and \<open>costs[job_rank][v_rank]\<close> in
  \<open>dynamic_vehicle_choice\<close>.
\<close>

definition init_visit ::
  "('c::len word, 'd::len word, 'r) RouteClass \<Rightarrow> ('c word, 'd word) Input \<Rightarrow> INIT \<Rightarrow> Index \<Rightarrow> 'r
     \<Rightarrow> (Index \<Rightarrow> bool) \<Rightarrow> (Index \<Rightarrow> 'c word) \<Rightarrow> Index
     \<Rightarrow> ('c word, 'd word) init_state \<Rightarrow> ('c word, 'd word) init_state" where
  "init_visit T inp init v_rank current_r skip cost_of job_rank st =
     (if skip job_rank \<or>
         \<not> vehicle_ok_with_job inp v_rank job_rank \<or>
         \<not> is_valid_addition_for_capacity T current_r inp
              (pickup (jobs inp ! job_rank)) (delivery (jobs inp ! job_rank)) 0 \<or>
         \<not> is_valid_addition_for_tw T current_r inp job_rank 0
      then st
      else
        let st =
              (if init = HIGHER_AMOUNT then
                 (let st = (if amount_lt (higher_amount st) (pickup (jobs inp ! job_rank))
                            then st \<lparr> higher_amount := pickup (jobs inp ! job_rank),
                                      best_job_rank := job_rank, init_ok := True \<rparr>
                            else st)
                  in (if amount_lt (higher_amount st) (delivery (jobs inp ! job_rank))
                      then st \<lparr> higher_amount := delivery (jobs inp ! job_rank),
                                best_job_rank := job_rank, init_ok := True \<rparr>
                      else st))
               else st);
            st =
              (if init = EARLIEST_DEADLINE then
                 (let current_deadline = tw_end (last (tws (jobs inp ! job_rank)))
                  in if current_deadline < earliest_deadline st
                     then st \<lparr> earliest_deadline := current_deadline,
                               best_job_rank := job_rank, init_ok := True \<rparr>
                     else st)
               else st);
            st =
              (if init = FURTHEST \<and> furthest_cost st < cost_of job_rank
               then st \<lparr> furthest_cost := cost_of job_rank,
                         best_job_rank := job_rank, init_ok := True \<rparr>
               else st);
            st =
              (if init = NEAREST \<and> cost_of job_rank < nearest_cost st
               then st \<lparr> nearest_cost := cost_of job_rank,
                         best_job_rank := job_rank, init_ok := True \<rparr>
               else st)
        in st)"

definition init_step ::
  "('c::len word, 'd::len word, 'r) RouteClass \<Rightarrow> ('c word, 'd word) Input \<Rightarrow> INIT \<Rightarrow> Index \<Rightarrow> 'r
     \<Rightarrow> Index list \<Rightarrow> (Index \<Rightarrow> bool) \<Rightarrow> (Index \<Rightarrow> 'c word) \<Rightarrow> 'r \<times> Index list" where
  "init_step T inp init v_rank current_r unassigned skip cost_of =
     (if init \<noteq> NONE then
        (let st = fold (init_visit T inp init v_rank current_r skip cost_of) unassigned
                    \<lparr> init_ok = False, higher_amount = zero_amount inp, furthest_cost = 0,
                      nearest_cost = - 1, earliest_deadline = - 1, best_job_rank = 0 \<rparr>
         in if init_ok st then
              (update_amounts T (add T current_r inp (best_job_rank st) 0) inp,
               set_erase (best_job_rank st) unassigned)
            else (current_r, unassigned))
      else (current_r, unassigned))"

text \<open>
  One pass of the greedy loop's body over all unassigned jobs and positions. \<open>weight\<close> is
  \<open>costs[job_rank]\<close> in \<open>basic\<close> and \<open>regrets[job_rank]\<close> in \<open>dynamic_vehicle_choice\<close>. The
  result is \<open>(best_cost, best_job_rank, best_r)\<close>.
\<close>

definition current_cost ::
  "('c::len word, 'f) Float \<Rightarrow> ('c word, 'd, 'r) RouteClass \<Rightarrow> ('c word, 'd) Input \<Rightarrow> 'f \<Rightarrow> Index
     \<Rightarrow> 'r \<Rightarrow> (Index \<Rightarrow> 'c word) \<Rightarrow> Index \<Rightarrow> Index \<Rightarrow> 'f" where
  "current_cost F T inp lambda v_rank current_r weight job_rank r =
     (let current_add = of_gain F (addition_cost inp (matrix inp) job_rank
                                     (vehicles inp ! v_rank) (route_of T current_r) r)
      in fsub F current_add (fmul F lambda (of_cost F (weight job_rank))))"

definition greedy_scan ::
  "('c::len word, 'f::linorder) Float \<Rightarrow> ('c word, 'd, 'r) RouteClass \<Rightarrow> ('c word, 'd) Input \<Rightarrow> 'f
     \<Rightarrow> Index \<Rightarrow> 'r \<Rightarrow> Index list \<Rightarrow> (Index \<Rightarrow> 'c word) \<Rightarrow> 'f \<times> Index \<times> Index" where
  "greedy_scan F T inp lambda v_rank current_r unassigned weight =
     fold (\<lambda>job_rank best.
             if \<not> vehicle_ok_with_job inp v_rank job_rank then best
             else
               fold (\<lambda>r (best_cost, best_job_rank, best_r).
                       if current_cost F T inp lambda v_rank current_r weight job_rank r
                            < best_cost \<and>
                          is_valid_addition_for_capacity T current_r inp
                            (pickup (jobs inp ! job_rank)) (delivery (jobs inp ! job_rank)) r \<and>
                          is_valid_addition_for_tw T current_r inp job_rank r
                       then (current_cost F T inp lambda v_rank current_r weight job_rank r,
                             job_rank, r)
                       else (best_cost, best_job_rank, best_r))
                 [0..<Suc (length (route_of T current_r))] best)
       unassigned (float_max F, 0, 0)"

text \<open>The \<open>while (keep_going)\<close> loop; \<open>None\<close> would be a loop that never ends.\<close>

partial_function (option) greedy_loop ::
  "('c::len word, 'f::linorder) Float \<Rightarrow> ('c word, 'd, 'r) RouteClass \<Rightarrow> ('c word, 'd) Input \<Rightarrow> 'f
     \<Rightarrow> Index \<Rightarrow> (Index \<Rightarrow> 'c word) \<Rightarrow> 'r \<Rightarrow> Index list \<Rightarrow> ('r \<times> Index list) option" where
  "greedy_loop F T inp lambda v_rank weight current_r unassigned =
     (let (best_cost, best_job_rank, best_r) =
            greedy_scan F T inp lambda v_rank current_r unassigned weight
      in if best_cost < float_max F then
           greedy_loop F T inp lambda v_rank weight
             (update_amounts T (add T current_r inp best_job_rank best_r) inp)
             (set_erase best_job_rank unassigned)
         else Some (current_r, unassigned))"

subsection \<open>\<open>basic\<close>\<close>

text \<open>
  The loop over the vehicles in ranked order: for each one the init step, then the greedy
  insertion loop. \<open>current_r\<close> is a reference to \<open>routes[v_rank]\<close>, so the route built is
  written back there.
\<close>

fun basic_loop ::
  "('c::len word, 'f::linorder) Float \<Rightarrow> ('c word, 'd::len word, 'r) RouteClass
     \<Rightarrow> ('c word, 'd word) Input \<Rightarrow> INIT \<Rightarrow> 'f \<Rightarrow> 'c word list \<Rightarrow> Index list
     \<Rightarrow> 'r list \<Rightarrow> Index list \<Rightarrow> ('r list \<times> Index list) option" where
  "basic_loop F T inp init lambda costs [] routes unassigned = Some (routes, unassigned)"
| "basic_loop F T inp init lambda costs (v_rank # rest) routes unassigned =
     (let (current_r, unassigned) =
            init_step T inp init v_rank (routes ! v_rank) unassigned
              (\<lambda>job_rank. False) (\<lambda>job_rank. costs ! job_rank)
      in Option.bind
           (greedy_loop F T inp lambda v_rank (\<lambda>job_rank. costs ! job_rank)
              current_r unassigned)
           (\<lambda>(current_r, unassigned).
              basic_loop F T inp init lambda costs rest (routes[v_rank := current_r])
                unassigned))"

text \<open>
  What a run ends in when it does not get to its \<open>return\<close>: a read outside a vector.
\<close>

datatype crash = Out_of_bounds

text \<open>
  \<open>basic\<close> returns the routes; the model returns the local set \<open>unassigned\<close> with them.
  The reference costs are taken from \<open>input.vehicles[0]\<close>, which is read for every job
  (lines 54 to 61): with a job and no vehicle that read is outside the vector, and the run
  does not get to a result.
\<close>

definition basic ::
  "('c::len word, 'f::linorder) Float \<Rightarrow> ('c word, 'd::len word, 'r) RouteClass
     \<Rightarrow> ('c word, 'd word) Input \<Rightarrow> INIT \<Rightarrow> 'f
     \<Rightarrow> (crash + 'r list \<times> Index list) option" where
  "basic F T inp init lambda =
     (let routes = map (new_route T inp) [0..<length (vehicles inp)];
          unassigned = [0..<length (jobs inp)];
          vehicles_ranks = stable_sort (vehicle_higher inp) [0..<length (vehicles inp)]
      in if vehicles inp = [] \<and> jobs inp \<noteq> [] then Some (Inl Out_of_bounds)
         else
           (let v = vehicles inp ! 0;
                costs = map (empty_route_cost inp v) [0..<length (jobs inp)]
            in map_option Inr
                 (basic_loop F T inp init lambda costs vehicles_ranks routes unassigned)))"

subsection \<open>\<open>dynamic_vehicle_choice\<close>\<close>

text \<open>\<open>costs[j][v]\<close>: the cost of fetching job \<open>j\<close> in an empty route of vehicle \<open>v\<close>.\<close>

definition dynamic_costs :: "('c::len word, 'd) Input \<Rightarrow> Index list \<Rightarrow> 'c word list list" where
  "dynamic_costs inp vehicles_ranks =
     map (\<lambda>j. map (\<lambda>v. empty_route_cost inp (vehicles inp ! (vehicles_ranks ! v)) j)
                [0..<length vehicles_ranks])
       [0..<length (jobs inp)]"

text \<open>
  \<open>jobs_min_costs\<close> and \<open>jobs_second_min_costs\<close>: both vectors start at the maximal cost
  and are updated for every unassigned job and every remaining vehicle.
\<close>

definition min_costs_scan ::
  "'c::len word list list \<Rightarrow> nat \<Rightarrow> Index list \<Rightarrow> Index list \<Rightarrow> 'c word list \<times> 'c word list" where
  "min_costs_scan costs n_jobs unassigned vehicles_ranks =
     fold (\<lambda>job_rank.
             fold (\<lambda>v_rank (jobs_min_costs, jobs_second_min_costs).
                     if costs ! job_rank ! v_rank \<le> jobs_min_costs ! job_rank then
                       (jobs_min_costs[job_rank := costs ! job_rank ! v_rank],
                        jobs_second_min_costs[job_rank := jobs_min_costs ! job_rank])
                     else if costs ! job_rank ! v_rank < jobs_second_min_costs ! job_rank then
                       (jobs_min_costs,
                        jobs_second_min_costs[job_rank := costs ! job_rank ! v_rank])
                     else (jobs_min_costs, jobs_second_min_costs))
               vehicles_ranks)
       unassigned (replicate n_jobs (- 1), replicate n_jobs (- 1))"

definition count_closest ::
  "'c::len word list list \<Rightarrow> 'c word list \<Rightarrow> nat \<Rightarrow> Index list \<Rightarrow> Index list \<Rightarrow> nat list" where
  "count_closest costs jobs_min_costs n_vehicles unassigned vehicles_ranks =
     fold (\<lambda>job_rank.
             fold (\<lambda>v_rank closest_jobs_count.
                     if costs ! job_rank ! v_rank = jobs_min_costs ! job_rank
                     then closest_jobs_count[v_rank := closest_jobs_count ! v_rank + 1]
                     else closest_jobs_count)
               vehicles_ranks)
       unassigned (replicate n_vehicles 0)"

text \<open>The comparator \<open>std::min_element\<close> picks the vehicle with.\<close>

definition closer :: "('c, 'd::len word) Input \<Rightarrow> nat list \<Rightarrow> Index \<Rightarrow> Index \<Rightarrow> bool" where
  "closer inp closest_jobs_count lhs rhs =
     (let v_lhs = vehicles inp ! lhs; v_rhs = vehicles inp ! rhs
      in closest_jobs_count ! lhs > closest_jobs_count ! rhs \<or>
         (closest_jobs_count ! lhs = closest_jobs_count ! rhs \<and>
          (amount_lt (capacity v_rhs) (capacity v_lhs) \<or>
           (capacity v_lhs = capacity v_rhs \<and>
            tw_length (tw v_lhs) > tw_length (tw v_rhs)))))"

definition compute_regrets ::
  "'c::len word list list \<Rightarrow> 'c word list \<Rightarrow> 'c word list \<Rightarrow> nat \<Rightarrow> Index list \<Rightarrow> Index
     \<Rightarrow> 'c word list" where
  "compute_regrets costs jobs_min_costs jobs_second_min_costs n_jobs unassigned v_rank =
     fold (\<lambda>job_rank regrets.
             if jobs_min_costs ! job_rank < costs ! job_rank ! v_rank
             then regrets[job_rank := jobs_min_costs ! job_rank]
             else regrets[job_rank := jobs_second_min_costs ! job_rank])
       unassigned (replicate n_jobs (- 1))"

text \<open>The main loop; \<open>None\<close> would be a loop that never ends.\<close>

partial_function (option) dynamic_loop ::
  "('c::len word, 'f::linorder) Float \<Rightarrow> ('c word, 'd::len word, 'r) RouteClass
     \<Rightarrow> ('c word, 'd word) Input \<Rightarrow> INIT \<Rightarrow> 'f \<Rightarrow> 'c word list list
     \<Rightarrow> 'r list \<Rightarrow> Index list \<Rightarrow> Index list \<Rightarrow> ('r list \<times> Index list) option" where
  "dynamic_loop F T inp init lambda costs routes vehicles_ranks unassigned =
     (if vehicles_ranks \<noteq> [] \<and> unassigned \<noteq> [] then
        (let (jobs_min_costs, jobs_second_min_costs) =
               min_costs_scan costs (length (jobs inp)) unassigned vehicles_ranks;
             closest_jobs_count =
               count_closest costs jobs_min_costs (length (vehicles inp)) unassigned
                 vehicles_ranks;
             chosen_vehicle = min_element (closer inp closest_jobs_count) vehicles_ranks;
             v_rank = vehicles_ranks ! chosen_vehicle;
             vehicles_ranks = erase_at chosen_vehicle vehicles_ranks;
             regrets = compute_regrets costs jobs_min_costs jobs_second_min_costs
                         (length (jobs inp)) unassigned v_rank;
             (current_r, unassigned) =
               init_step T inp init v_rank (routes ! v_rank) unassigned
                 (\<lambda>job_rank. jobs_min_costs ! job_rank < costs ! job_rank ! v_rank)
                 (\<lambda>job_rank. costs ! job_rank ! v_rank)
         in Option.bind
              (greedy_loop F T inp lambda v_rank (\<lambda>job_rank. regrets ! job_rank)
                 current_r unassigned)
              (\<lambda>(current_r, unassigned).
                 dynamic_loop F T inp init lambda costs (routes[v_rank := current_r])
                   vehicles_ranks unassigned))
      else Some (routes, unassigned))"

definition dynamic_vehicle_choice ::
  "('c::len word, 'f::linorder) Float \<Rightarrow> ('c word, 'd::len word, 'r) RouteClass
     \<Rightarrow> ('c word, 'd word) Input \<Rightarrow> INIT \<Rightarrow> 'f \<Rightarrow> ('r list \<times> Index list) option" where
  "dynamic_vehicle_choice F T inp init lambda =
     (let routes = map (new_route T inp) [0..<length (vehicles inp)];
          unassigned = [0..<length (jobs inp)];
          vehicles_ranks = [0..<length (vehicles inp)];
          costs = dynamic_costs inp vehicles_ranks
      in dynamic_loop F T inp init lambda costs routes vehicles_ranks unassigned)"

subsection \<open>A route class and floats for the examples\<close>

text \<open>
  A route class and floats to run the heuristics with: a route is its list of jobs and
  holds two jobs at most; floats are the integers with a large maximum.
\<close>

definition ex_float :: "(32 word, int) Float" where
  "ex_float =
     \<lparr> of_gain = (\<lambda>g. g), of_cost = uint, fmul = (*), fsub = (-),
       float_max = 340282346638528859811704183484516925440 \<rparr>"

definition ex_routes :: "(32 word, 32 word, Index list) RouteClass" where
  "ex_routes =
     \<lparr> new_route = (\<lambda>inp v. []),
       route_of = (\<lambda>r. r),
       add = (\<lambda>r inp j pos. take pos r @ [j] @ drop pos r),
       update_amounts = (\<lambda>r inp. r),
       is_valid_addition_for_capacity = (\<lambda>r inp p d pos. length r < 2),
       is_valid_addition_for_tw = (\<lambda>r inp j pos. True) \<rparr>"

section \<open>Properties of the insertion heuristics\<close>

subsection \<open>The order in which \<open>basic\<close> fills the vehicles\<close>

text \<open>
  What \<open>std::stable_sort\<close> requires of its comparator on the elements it sorts:
  irreflexive, transitive, and with a transitive incomparability.
\<close>

definition strict_weak_order :: "'a set \<Rightarrow> ('a \<Rightarrow> 'a \<Rightarrow> bool) \<Rightarrow> bool" where
  "strict_weak_order A cmp \<longleftrightarrow>
     (\<forall>x\<in>A. \<not> cmp x x) \<and>
     (\<forall>x\<in>A. \<forall>y\<in>A. \<forall>z\<in>A. cmp x y \<and> cmp y z \<longrightarrow> cmp x z) \<and>
     (\<forall>x\<in>A. \<forall>y\<in>A. \<forall>z\<in>A.
        \<not> cmp x y \<and> \<not> cmp y x \<and> \<not> cmp y z \<and> \<not> cmp z y \<longrightarrow> \<not> cmp x z \<and> \<not> cmp z x)"

lemma swo_asym:
  assumes "strict_weak_order A cmp" "x \<in> A" "y \<in> A" "cmp x y"
  shows "\<not> cmp y x"
  using assms unfolding strict_weak_order_def by blast

lemma swo_negtrans:
  assumes "strict_weak_order A cmp" "x \<in> A" "y \<in> A" "z \<in> A" "\<not> cmp x y" "\<not> cmp y z"
  shows "\<not> cmp x z"
  using assms unfolding strict_weak_order_def by blast

text \<open>The sort rearranges its argument, whatever the comparator.\<close>

lemma mset_unguarded_linear_insert:
  "mset (unguarded_linear_insert cmp val ys) = add_mset val (mset ys)"
  by (induction ys) auto

lemma mset_insertion_step: "mset (insertion_step cmp val front) = add_mset val (mset front)"
  by (simp add: insertion_step_def mset_unguarded_linear_insert)

lemma mset_fold_insertion_step:
  "mset (fold (insertion_step cmp) xs front) = mset xs + mset front"
  by (induction xs arbitrary: front) (auto simp: mset_insertion_step)

lemma mset_insertion_sort: "mset (insertion_sort cmp xs) = mset xs"
  by (cases xs) (auto simp: mset_fold_insertion_step)

lemma mset_chunk_insertion_sort: "mset (concat (chunk_insertion_sort cmp xs)) = mset xs"
proof (induction cmp xs rule: chunk_insertion_sort.induct)
  case (1 cmp xs)
  show ?case
  proof (cases "7 \<le> length xs")
    case True
    have "mset (take 7 xs) + mset (drop 7 xs) = mset xs"
      by (metis append_take_drop_id mset_append)
    then show ?thesis
      using True 1 by (subst chunk_insertion_sort.simps) (simp add: mset_insertion_sort)
  next
    case False
    then show ?thesis
      by (subst chunk_insertion_sort.simps) (simp add: mset_insertion_sort)
  qed
qed

lemma mset_move_merge: "mset (move_merge cmp xs ys) = mset xs + mset ys"
  by (induction cmp xs ys rule: move_merge.induct) auto

lemma mset_merge_sort_loop: "mset (concat (merge_sort_loop cmp runs)) = mset (concat runs)"
  by (induction cmp runs rule: merge_sort_loop.induct) (auto simp: mset_move_merge)

lemma mset_merge_runs: "mset (merge_runs cmp runs) = mset (concat runs)"
proof (induction cmp runs rule: merge_runs.induct)
  case (3 cmp a b runs)
  then show ?case
    using mset_merge_sort_loop[of cmp "merge_sort_loop cmp (a # b # runs)"]
      mset_merge_sort_loop[of cmp "a # b # runs"]
    by (simp del: merge_sort_loop.simps)
qed simp_all

lemma mset_merge_sort_with_buffer: "mset (merge_sort_with_buffer cmp xs) = mset xs"
  by (simp add: merge_sort_with_buffer_def mset_merge_runs mset_chunk_insertion_sort)

lemma mset_move_merge_backward: "mset (move_merge_backward cmp xs ys) = mset xs + mset ys"
  by (induction cmp xs ys rule: move_merge_backward.induct) auto

lemma mset_merge_adaptive: "mset (merge_adaptive cmp a b) = mset a + mset b"
  by (simp add: merge_adaptive_def mset_move_merge mset_move_merge_backward)

lemma mset_stable_sort: "mset (stable_sort cmp xs) = mset xs"
proof (cases "xs = []")
  case True
  then show ?thesis by (simp add: stable_sort_def)
next
  case False
  have "mset (take ((length xs + 1) div 2) xs) + mset (drop ((length xs + 1) div 2) xs) = mset xs"
    by (metis append_take_drop_id mset_append)
  then show ?thesis
    using False
    by (simp add: stable_sort_def Let_def mset_merge_adaptive mset_merge_sort_with_buffer)
qed

lemma set_stable_sort: "set (stable_sort cmp xs) = set xs"
  using mset_stable_sort[of cmp xs] by (metis set_mset_mset)

text \<open>
  The order of two elements \<open>a\<close>, \<open>b\<close> with \<open>a\<close> in front: the comparator does not put \<open>b\<close>
  before \<open>a\<close>, and it puts \<open>a\<close> before \<open>b\<close> or \<open>a\<close> stood before \<open>b\<close> in the input (\<open>R\<close> is the
  input order).
\<close>

definition in_order :: "('a \<Rightarrow> 'a \<Rightarrow> bool) \<Rightarrow> ('a \<Rightarrow> 'a \<Rightarrow> bool) \<Rightarrow> 'a \<Rightarrow> 'a \<Rightarrow> bool" where
  "in_order cmp R a b \<longleftrightarrow> \<not> cmp b a \<and> (cmp a b \<or> R a b)"

lemma in_order_unguarded_linear_insert:
  assumes swo: "strict_weak_order A cmp" and "val \<in> A" "set ys \<subseteq> A"
    and "sorted_wrt (\<lambda>a b. in_order cmp R b a) ys" "\<forall>y\<in>set ys. R y val"
  shows "sorted_wrt (\<lambda>a b. in_order cmp R b a) (unguarded_linear_insert cmp val ys)"
  using assms(3-)
proof (induction ys)
  case Nil
  then show ?case by simp
next
  case (Cons y ys)
  show ?case
  proof (cases "cmp val y")
    case True
    have "\<not> cmp y val" using swo_asym[OF swo _ _ True] Cons.prems assms(2) by simp
    then have "in_order cmp R val y" using True by (simp add: in_order_def)
    moreover have "\<forall>z\<in>set ys. in_order cmp R z y" using Cons.prems by simp
    ultimately have "\<forall>z\<in>set (unguarded_linear_insert cmp val ys). in_order cmp R z y"
      using mset_unguarded_linear_insert[of cmp val ys]
      by (metis insert_iff set_mset_add_mset_insert set_mset_mset)
    moreover have "sorted_wrt (\<lambda>a b. in_order cmp R b a) (unguarded_linear_insert cmp val ys)"
      using Cons by simp
    ultimately show ?thesis using True by simp
  next
    case False
    have "\<forall>z\<in>set (y # ys). in_order cmp R z val"
    proof
      fix z assume z: "z \<in> set (y # ys)"
      have "\<not> cmp val z"
      proof (cases "z = y")
        case True
        then show ?thesis using False by simp
      next
        case False
        then have "z \<in> set ys" using z by simp
        then have "\<not> cmp y z" using Cons.prems by (simp add: in_order_def)
        then show ?thesis
          using swo_negtrans[OF swo, of val y z] \<open>\<not> cmp val y\<close> z Cons.prems assms(2) by auto
      qed
      moreover have "R z val" using z Cons.prems by auto
      ultimately show "in_order cmp R z val" by (simp add: in_order_def)
    qed
    then show ?thesis using False Cons.prems by simp
  qed
qed

lemma in_order_insertion_step:
  assumes swo: "strict_weak_order A cmp" and "val \<in> A" "set front \<subseteq> A" "front \<noteq> []"
    and srt: "sorted_wrt (in_order cmp R) front" and "\<forall>y\<in>set front. R y val"
  shows "sorted_wrt (in_order cmp R) (insertion_step cmp val front)"
proof (cases "cmp val (hd front)")
  case True
  obtain h t where ft: "front = h # t" using assms(4) by (cases front) auto
  have "\<forall>y\<in>set front. in_order cmp R val y"
  proof
    fix y assume y: "y \<in> set front"
    have "cmp val y"
    proof (cases "y = h")
      case True
      then show ?thesis using \<open>cmp val (hd front)\<close> ft by simp
    next
      case False
      then have "y \<in> set t" using y ft by simp
      then have "\<not> cmp y h" using srt ft by (simp add: in_order_def)
      then show ?thesis
        using swo_negtrans[OF swo, of val y h] True ft y assms(2,3) by auto
    qed
    moreover have "\<not> cmp y val"
      using swo_asym[OF swo _ _ \<open>cmp val y\<close>] y assms(2,3) by auto
    ultimately show "in_order cmp R val y" by (simp add: in_order_def)
  qed
  then show ?thesis using True srt by (simp add: insertion_step_def)
next
  case False
  have "sorted_wrt (\<lambda>a b. in_order cmp R b a) (rev front)"
    using srt by (simp add: sorted_wrt_rev)
  then have "sorted_wrt (\<lambda>a b. in_order cmp R b a) (unguarded_linear_insert cmp val (rev front))"
    using in_order_unguarded_linear_insert[OF swo assms(2), of "rev front" R] assms(3,6) by simp
  then show ?thesis using False by (simp add: insertion_step_def sorted_wrt_rev)
qed

lemma in_order_fold_insertion_step:
  assumes swo: "strict_weak_order A cmp"
  shows "set xs \<subseteq> A \<Longrightarrow> set front \<subseteq> A \<Longrightarrow> front \<noteq> [] \<Longrightarrow> sorted_wrt (in_order cmp R) front
     \<Longrightarrow> \<forall>y\<in>set front. \<forall>x\<in>set xs. R y x \<Longrightarrow> sorted_wrt R xs
     \<Longrightarrow> sorted_wrt (in_order cmp R) (fold (insertion_step cmp) xs front)"
proof (induction xs arbitrary: front)
  case Nil
  then show ?case by simp
next
  case (Cons x xs)
  let ?f = "insertion_step cmp x front"
  have s: "set ?f = insert x (set front)"
    using mset_insertion_step[of cmp x front]
    by (metis set_mset_add_mset_insert set_mset_mset)
  have 1: "sorted_wrt (in_order cmp R) ?f"
    using in_order_insertion_step[OF swo, of x front R] Cons.prems by simp
  have 2: "?f \<noteq> []" using s by auto
  have 3: "set ?f \<subseteq> A" using s Cons.prems by simp
  have 4: "\<forall>y\<in>set ?f. \<forall>z\<in>set xs. R y z" using s Cons.prems by simp
  show ?case
    using Cons.IH[OF _ 3 2 1 4] Cons.prems by simp
qed

lemma in_order_insertion_sort:
  assumes "strict_weak_order A cmp" "set xs \<subseteq> A" "sorted_wrt R xs"
  shows "sorted_wrt (in_order cmp R) (insertion_sort cmp xs)"
proof (cases xs)
  case Nil
  then show ?thesis by simp
next
  case (Cons x t)
  show ?thesis
    using in_order_fold_insertion_step[OF assms(1), of t "[x]" R] assms(2,3) Cons by simp
qed

lemma set_move_merge: "set (move_merge cmp xs ys) = set xs \<union> set ys"
  using mset_move_merge[of cmp xs ys] by (metis set_mset_mset set_mset_union)

lemma in_order_move_merge:
  "strict_weak_order A cmp \<Longrightarrow> set xs \<subseteq> A \<Longrightarrow> set ys \<subseteq> A
     \<Longrightarrow> sorted_wrt (in_order cmp R) xs
     \<Longrightarrow> sorted_wrt (in_order cmp R) ys \<Longrightarrow> \<forall>x\<in>set xs. \<forall>y\<in>set ys. R x y
     \<Longrightarrow> sorted_wrt (in_order cmp R) (move_merge cmp xs ys)"
proof (induction cmp xs ys rule: move_merge.induct)
  case (3 cmp x xs y ys)
  note swo = "3.prems"(1)
  have mem: "x \<in> A" "y \<in> A" "set xs \<subseteq> A" "set ys \<subseteq> A" using "3.prems" by auto
  have sx: "\<forall>z\<in>set xs. in_order cmp R x z" "sorted_wrt (in_order cmp R) xs"
    and sy: "\<forall>z\<in>set ys. in_order cmp R y z" "sorted_wrt (in_order cmp R) ys"
    using "3.prems" by auto
  have cross: "\<forall>a\<in>set (x # xs). \<forall>b\<in>set (y # ys). R a b" using "3.prems" by blast
  show ?case
  proof (cases "cmp y x")
    case True
    have "\<forall>z\<in>set (x # xs). in_order cmp R y z"
    proof
      fix z assume z: "z \<in> set (x # xs)"
      then have zA: "z \<in> A" using mem by auto
      have "cmp y z"
      proof (cases "z = x")
        case True
        then show ?thesis using \<open>cmp y x\<close> by simp
      next
        case False
        then have "z \<in> set xs" using z by simp
        then have "\<not> cmp z x" using sx by (simp add: in_order_def)
        then show ?thesis
          using swo_negtrans[OF swo, of y z x] True zA mem by auto
      qed
      moreover have "\<not> cmp z y"
        using swo_asym[OF swo _ _ \<open>cmp y z\<close>] zA mem by auto
      ultimately show "in_order cmp R y z" by (simp add: in_order_def)
    qed
    then have "\<forall>z\<in>set (move_merge cmp (x # xs) ys). in_order cmp R y z"
      using sy by (auto simp: set_move_merge)
    moreover have "sorted_wrt (in_order cmp R) (move_merge cmp (x # xs) ys)"
      using "3.IH"(1)[OF True swo] "3.prems" mem sy cross by simp
    ultimately show ?thesis using True by simp
  next
    case False
    have "\<forall>z\<in>set (y # ys). in_order cmp R x z"
    proof
      fix z assume z: "z \<in> set (y # ys)"
      then have zA: "z \<in> A" using mem by auto
      have "\<not> cmp z x"
      proof (cases "z = y")
        case True
        then show ?thesis using False by simp
      next
        case False
        then have "z \<in> set ys" using z by simp
        then have "\<not> cmp z y" using sy by (simp add: in_order_def)
        then show ?thesis
          using swo_negtrans[OF swo, of z y x] \<open>\<not> cmp y x\<close> zA mem by auto
      qed
      moreover have "R x z" using z cross by auto
      ultimately show "in_order cmp R x z" by (simp add: in_order_def)
    qed
    then have "\<forall>z\<in>set (move_merge cmp xs (y # ys)). in_order cmp R x z"
      using sx by (auto simp: set_move_merge)
    moreover have "sorted_wrt (in_order cmp R) (move_merge cmp xs (y # ys))"
      using "3.IH"(2)[OF False swo] "3.prems" mem sx cross by simp
    ultimately show ?thesis using False by simp
  qed
qed simp_all

lemma set_move_merge_backward: "set (move_merge_backward cmp xs ys) = set xs \<union> set ys"
  using mset_move_merge_backward[of cmp xs ys] by (metis set_mset_mset set_mset_union)

text \<open>The two arguments and the result are read from the last element backwards.\<close>

lemma in_order_move_merge_backward:
  "strict_weak_order A cmp \<Longrightarrow> set xs \<subseteq> A \<Longrightarrow> set ys \<subseteq> A
     \<Longrightarrow> sorted_wrt (\<lambda>a b. in_order cmp R b a) xs
     \<Longrightarrow> sorted_wrt (\<lambda>a b. in_order cmp R b a) ys \<Longrightarrow> \<forall>x\<in>set xs. \<forall>y\<in>set ys. R x y
     \<Longrightarrow> sorted_wrt (\<lambda>a b. in_order cmp R b a) (move_merge_backward cmp xs ys)"
proof (induction cmp xs ys rule: move_merge_backward.induct)
  case (3 cmp x xs y ys)
  note swo = "3.prems"(1)
  have mem: "x \<in> A" "y \<in> A" "set xs \<subseteq> A" "set ys \<subseteq> A" using "3.prems" by auto
  have sx: "\<forall>z\<in>set xs. in_order cmp R z x" "sorted_wrt (\<lambda>a b. in_order cmp R b a) xs"
    and sy: "\<forall>z\<in>set ys. in_order cmp R z y" "sorted_wrt (\<lambda>a b. in_order cmp R b a) ys"
    using "3.prems" by auto
  have cross: "\<forall>a\<in>set (x # xs). \<forall>b\<in>set (y # ys). R a b" using "3.prems" by blast
  show ?case
  proof (cases "cmp y x")
    case True
    have "\<forall>z\<in>set (y # ys). in_order cmp R z x"
    proof
      fix z assume z: "z \<in> set (y # ys)"
      then have zA: "z \<in> A" using mem by auto
      have "cmp z x"
      proof (cases "z = y")
        case True
        then show ?thesis using \<open>cmp y x\<close> by simp
      next
        case False
        then have "z \<in> set ys" using z by simp
        then have "\<not> cmp y z" using sy by (simp add: in_order_def)
        then show ?thesis
          using swo_negtrans[OF swo, of y z x] True zA mem by auto
      qed
      moreover have "\<not> cmp x z"
        using swo_asym[OF swo _ _ \<open>cmp z x\<close>] zA mem by auto
      ultimately show "in_order cmp R z x" by (simp add: in_order_def)
    qed
    then have "\<forall>z\<in>set (move_merge_backward cmp xs (y # ys)). in_order cmp R z x"
      using sx by (auto simp: set_move_merge_backward)
    moreover have "sorted_wrt (\<lambda>a b. in_order cmp R b a) (move_merge_backward cmp xs (y # ys))"
      using "3.IH"(1)[OF True swo] "3.prems" mem sx cross by simp
    ultimately show ?thesis using True by simp
  next
    case False
    have "\<forall>z\<in>set (x # xs). in_order cmp R z y"
    proof
      fix z assume z: "z \<in> set (x # xs)"
      then have zA: "z \<in> A" using mem by auto
      have "\<not> cmp y z"
      proof (cases "z = x")
        case True
        then show ?thesis using False by simp
      next
        case False
        then have "z \<in> set xs" using z by simp
        then have "\<not> cmp x z" using sx by (simp add: in_order_def)
        then show ?thesis
          using swo_negtrans[OF swo, of y x z] \<open>\<not> cmp y x\<close> zA mem by auto
      qed
      moreover have "R z y" using z cross by auto
      ultimately show "in_order cmp R z y" by (simp add: in_order_def)
    qed
    then have "\<forall>z\<in>set (move_merge_backward cmp (x # xs) ys). in_order cmp R z y"
      using sy by (auto simp: set_move_merge_backward)
    moreover have "sorted_wrt (\<lambda>a b. in_order cmp R b a) (move_merge_backward cmp (x # xs) ys)"
      using "3.IH"(2)[OF False swo] "3.prems" mem sy cross by simp
    ultimately show ?thesis using False by simp
  qed
qed simp_all

lemma in_order_merge_adaptive:
  assumes "strict_weak_order A cmp" "set xs \<subseteq> A" "set ys \<subseteq> A"
    "sorted_wrt (in_order cmp R) xs" "sorted_wrt (in_order cmp R) ys"
    "\<forall>x\<in>set xs. \<forall>y\<in>set ys. R x y"
  shows "sorted_wrt (in_order cmp R) (merge_adaptive cmp xs ys)"
proof (cases "length xs \<le> length ys")
  case True
  then show ?thesis
    using in_order_move_merge[OF assms] by (simp add: merge_adaptive_def)
next
  case False
  have "sorted_wrt (\<lambda>a b. in_order cmp R b a) (move_merge_backward cmp (rev xs) (rev ys))"
    using in_order_move_merge_backward[OF assms(1), of "rev xs" "rev ys" R] assms(2-)
    by (simp add: sorted_wrt_rev)
  then show ?thesis
    using False by (simp add: merge_adaptive_def sorted_wrt_rev)
qed

text \<open>
  Runs: each one in order, and every element of a run stood before every element of the
  runs behind it.
\<close>

definition runs_in_order ::
  "'a set \<Rightarrow> ('a \<Rightarrow> 'a \<Rightarrow> bool) \<Rightarrow> ('a \<Rightarrow> 'a \<Rightarrow> bool) \<Rightarrow> 'a list list \<Rightarrow> bool" where
  "runs_in_order A cmp R runs \<longleftrightarrow>
     (\<forall>r\<in>set runs. set r \<subseteq> A \<and> sorted_wrt (in_order cmp R) r) \<and>
     sorted_wrt (\<lambda>r s. \<forall>a\<in>set r. \<forall>b\<in>set s. R a b) runs"

lemma runs_in_order_merge_sort_loop:
  "strict_weak_order A cmp \<Longrightarrow> runs_in_order A cmp R runs
     \<Longrightarrow> runs_in_order A cmp R (merge_sort_loop cmp runs)
         \<and> \<Union> (set ` set (merge_sort_loop cmp runs)) = \<Union> (set ` set runs)"
proof (induction cmp runs rule: merge_sort_loop.induct)
  case (1 cmp a b runs)
  note swo = "1.prems"(1)
  have rest: "runs_in_order A cmp R runs"
    using "1.prems"(2) by (simp add: runs_in_order_def)
  note ih = "1.IH"[OF swo rest]
  have ab: "set a \<subseteq> A" "set b \<subseteq> A" "sorted_wrt (in_order cmp R) a"
    "sorted_wrt (in_order cmp R) b" "\<forall>x\<in>set a. \<forall>y\<in>set b. R x y"
    using "1.prems"(2) by (auto simp: runs_in_order_def)
  have m: "sorted_wrt (in_order cmp R) (move_merge cmp a b)"
    using in_order_move_merge[OF swo ab] .
  have later: "\<forall>s\<in>set runs. \<forall>x\<in>set a \<union> set b. \<forall>y\<in>set s. R x y"
    using "1.prems"(2) by (auto simp: runs_in_order_def)
  have "\<forall>s\<in>set (merge_sort_loop cmp runs). \<forall>x\<in>set a \<union> set b. \<forall>y\<in>set s. R x y"
  proof (intro ballI)
    fix s x y assume s: "s \<in> set (merge_sort_loop cmp runs)" and x: "x \<in> set a \<union> set b"
      and y: "y \<in> set s"
    from s y have "y \<in> \<Union> (set ` set (merge_sort_loop cmp runs))" by blast
    then have "y \<in> \<Union> (set ` set runs)" using ih by simp
    then show "R x y" using later x by blast
  qed
  then show ?case
    using ih m ab by (auto simp: runs_in_order_def set_move_merge)
qed simp_all

lemma in_order_merge_runs:
  "strict_weak_order A cmp \<Longrightarrow> runs_in_order A cmp R runs
     \<Longrightarrow> sorted_wrt (in_order cmp R) (merge_runs cmp runs)"
proof (induction cmp runs rule: merge_runs.induct)
  case (1 cmp)
  then show ?case by simp
next
  case (2 cmp a)
  then show ?case by (simp add: runs_in_order_def)
next
  case (3 cmp a b runs)
  have "runs_in_order A cmp R (merge_sort_loop cmp (a # b # runs))"
    using runs_in_order_merge_sort_loop[OF "3.prems"] by blast
  then have "runs_in_order A cmp R (merge_sort_loop cmp (merge_sort_loop cmp (a # b # runs)))"
    using runs_in_order_merge_sort_loop[OF "3.prems"(1)] by blast
  then show ?case
    using "3.IH"[OF "3.prems"(1)] by (simp del: merge_sort_loop.simps)
qed

lemma set_insertion_sort: "set (insertion_sort cmp xs) = set xs"
  using mset_insertion_sort[of cmp xs] by (metis set_mset_mset)

lemma runs_in_order_chunk_insertion_sort:
  "strict_weak_order A cmp \<Longrightarrow> set xs \<subseteq> A \<Longrightarrow> sorted_wrt R xs
     \<Longrightarrow> runs_in_order A cmp R (chunk_insertion_sort cmp xs)"
proof (induction cmp xs rule: chunk_insertion_sort.induct)
  case (1 cmp xs)
  note swo = "1.prems"(1)
  show ?case
  proof (cases "7 \<le> length xs")
    case True
    have xs: "xs = take 7 xs @ drop 7 xs" by simp
    have t: "set (take 7 xs) \<subseteq> A" "sorted_wrt R (take 7 xs)"
      and d: "set (drop 7 xs) \<subseteq> A" "sorted_wrt R (drop 7 xs)"
      and c: "\<forall>x\<in>set (take 7 xs). \<forall>y\<in>set (drop 7 xs). R x y"
      using "1.prems"(2,3) sorted_wrt_append[of R "take 7 xs" "drop 7 xs"]
        set_take_subset[of 7 xs] set_drop_subset[of 7 xs] by auto
    have ih: "runs_in_order A cmp R (chunk_insertion_sort cmp (drop 7 xs))"
      using "1.IH"[OF True swo d] .
    have "\<Union> (set ` set (chunk_insertion_sort cmp (drop 7 xs))) = set (drop 7 xs)"
      using mset_chunk_insertion_sort[of cmp "drop 7 xs"]
      by (metis set_concat set_mset_mset)
    then have "\<forall>s\<in>set (chunk_insertion_sort cmp (drop 7 xs)).
                 \<forall>x\<in>set (take 7 xs). \<forall>y\<in>set s. R x y"
      using c by blast
    then show ?thesis
      using True ih in_order_insertion_sort[OF swo t] t
      by (subst chunk_insertion_sort.simps) (simp add: runs_in_order_def set_insertion_sort)
  next
    case False
    then show ?thesis
      using in_order_insertion_sort[OF "1.prems"] "1.prems"(2)
      by (subst chunk_insertion_sort.simps) (simp add: runs_in_order_def set_insertion_sort)
  qed
qed

lemma in_order_merge_sort_with_buffer:
  assumes "strict_weak_order A cmp" "set xs \<subseteq> A" "sorted_wrt R xs"
  shows "sorted_wrt (in_order cmp R) (merge_sort_with_buffer cmp xs)"
  unfolding merge_sort_with_buffer_def
  using in_order_merge_runs[OF assms(1) runs_in_order_chunk_insertion_sort[OF assms]] .

lemma set_merge_sort_with_buffer: "set (merge_sort_with_buffer cmp xs) = set xs"
  using mset_merge_sort_with_buffer[of cmp xs] by (metis set_mset_mset)

lemma in_order_stable_sort:
  assumes swo: "strict_weak_order A cmp" and "set xs \<subseteq> A" "sorted_wrt R xs"
  shows "sorted_wrt (in_order cmp R) (stable_sort cmp xs)"
proof (cases "xs = []")
  case True
  then show ?thesis by (simp add: stable_sort_def)
next
  case False
  let ?m = "(length xs + 1) div 2"
  have t: "set (take ?m xs) \<subseteq> A" "sorted_wrt R (take ?m xs)"
    and d: "set (drop ?m xs) \<subseteq> A" "sorted_wrt R (drop ?m xs)"
    and c: "\<forall>x\<in>set (take ?m xs). \<forall>y\<in>set (drop ?m xs). R x y"
    using assms(2,3) sorted_wrt_append[of R "take ?m xs" "drop ?m xs"]
      set_take_subset[of ?m xs] set_drop_subset[of ?m xs] by auto
  have "sorted_wrt (in_order cmp R)
          (merge_adaptive cmp (merge_sort_with_buffer cmp (take ?m xs))
             (merge_sort_with_buffer cmp (drop ?m xs)))"
    using in_order_merge_adaptive[OF swo _ _ in_order_merge_sort_with_buffer[OF swo t]
        in_order_merge_sort_with_buffer[OF swo d]] t d c
    by (simp add: set_merge_sort_with_buffer)
  then show ?thesis
    using False by (simp add: stable_sort_def Let_def)
qed

lemma vehicle_higher_eq:
  "vehicle_higher inp =
     (\<lambda>u v. amount_lt (capacity (vehicles inp ! v)) (capacity (vehicles inp ! u)) \<or>
            (capacity (vehicles inp ! u) = capacity (vehicles inp ! v) \<and>
             tw_length (tw (vehicles inp ! v)) < tw_length (tw (vehicles inp ! u))))"
  by (intro ext) (simp add: vehicle_higher_def Let_def)

text \<open>
  Claim C7, as the code has it. \<open>basic\<close> runs its per-vehicle loop over the list that
  \<open>std::stable_sort\<close> makes of \<open>0, \<dots>, n - 1\<close> under the comparator in which \<open>u\<close> precedes \<open>v\<close>
  when the capacity of \<open>v\<close> is \<open><<\<close> that of \<open>u\<close>, or the capacities are equal and the time
  window of \<open>u\<close> is the longer one. Where that comparator is a strict weak order on the
  vehicles (what \<open>std::stable_sort\<close> requires), the list is a permutation of the vehicle
  ranks in which no vehicle stands behind one it precedes, and two vehicles neither of
  which precedes the other (capacities incomparable and different, or equal keys) stand
  in their original order.
\<close>

theorem basic_vehicle_order:
  fixes inp :: "('c::len word, 'd::len word) Input"
  assumes "strict_weak_order {0..<length (vehicles inp)}
             (\<lambda>u v. amount_lt (capacity (vehicles inp ! v)) (capacity (vehicles inp ! u)) \<or>
                    (capacity (vehicles inp ! u) = capacity (vehicles inp ! v) \<and>
                     tw_length (tw (vehicles inp ! v)) < tw_length (tw (vehicles inp ! u))))"
  shows "(let precedes =
                (\<lambda>u v. amount_lt (capacity (vehicles inp ! v)) (capacity (vehicles inp ! u)) \<or>
                       (capacity (vehicles inp ! u) = capacity (vehicles inp ! v) \<and>
                        tw_length (tw (vehicles inp ! v)) < tw_length (tw (vehicles inp ! u))));
              ranks = stable_sort (vehicle_higher inp) [0..<length (vehicles inp)] in
          (vehicles inp \<noteq> [] \<longrightarrow>
             basic F T inp init lambda =
               map_option Inr
                 (basic_loop F T inp init lambda
                    (map (empty_route_cost inp (vehicles inp ! 0)) [0..<length (jobs inp)])
                    ranks
                    (map (new_route T inp) [0..<length (vehicles inp)])
                    [0..<length (jobs inp)]))
          \<and> mset ranks = mset [0..<length (vehicles inp)]
          \<and> (\<forall>q<length ranks. \<forall>p<q.
                \<not> precedes (ranks ! q) (ranks ! p)
                \<and> (\<not> precedes (ranks ! p) (ranks ! q) \<longrightarrow> ranks ! p < ranks ! q)))"
proof -
  let ?n = "length (vehicles inp)"
  let ?ranks = "stable_sort (vehicle_higher inp) [0..<?n]"
  have swo: "strict_weak_order {0..<?n} (vehicle_higher inp)"
    using assms unfolding vehicle_higher_eq[of inp] .
  have "sorted_wrt (in_order (vehicle_higher inp) (<)) ?ranks"
    using in_order_stable_sort[OF swo, of "[0..<?n]" "(<)"] by simp
  then have "\<forall>q<length ?ranks. \<forall>p<q.
        \<not> vehicle_higher inp (?ranks ! q) (?ranks ! p)
        \<and> (\<not> vehicle_higher inp (?ranks ! p) (?ranks ! q) \<longrightarrow> ?ranks ! p < ?ranks ! q)"
    by (auto simp: sorted_wrt_iff_nth_less in_order_def)
  then have 3: "\<forall>q<length ?ranks. \<forall>p<q.
        \<not> (\<lambda>u v. amount_lt (capacity (vehicles inp ! v)) (capacity (vehicles inp ! u)) \<or>
                 (capacity (vehicles inp ! u) = capacity (vehicles inp ! v) \<and>
                  tw_length (tw (vehicles inp ! v)) < tw_length (tw (vehicles inp ! u))))
            (?ranks ! q) (?ranks ! p)
        \<and> (\<not> (\<lambda>u v. amount_lt (capacity (vehicles inp ! v)) (capacity (vehicles inp ! u)) \<or>
                 (capacity (vehicles inp ! u) = capacity (vehicles inp ! v) \<and>
                  tw_length (tw (vehicles inp ! v)) < tw_length (tw (vehicles inp ! u))))
              (?ranks ! p) (?ranks ! q) \<longrightarrow> ?ranks ! p < ?ranks ! q)"
    unfolding vehicle_higher_eq[of inp] .
  have 1: "vehicles inp \<noteq> [] \<longrightarrow>
             basic F T inp init lambda =
               map_option Inr
                 (basic_loop F T inp init lambda
                    (map (empty_route_cost inp (vehicles inp ! 0)) [0..<length (jobs inp)])
                    ?ranks
                    (map (new_route T inp) [0..<length (vehicles inp)])
                    [0..<length (jobs inp)])"
    by (simp add: basic_def Let_def)
  have 2: "mset ?ranks = mset [0..<?n]" by (rule mset_stable_sort)
  show ?thesis
    unfolding Let_def using 1 2 3 by blast
qed

text \<open>
  A fleet with two-dimensional capacities: vehicle 2 dominates the other two, whose
  capacities are incomparable.
\<close>

definition ex_fleet :: "(32 word, 32 word) Input" where
  "ex_fleet = ex_input
     \<lparr> vehicles :=
         [\<lparr> capacity = [1, 5], tw = \<lparr> tw_start = 0, tw_end = 50, tw_length = 50 \<rparr>,
            v_start = Some 0, v_end = Some 0 \<rparr>,
          \<lparr> capacity = [3, 3], tw = \<lparr> tw_start = 0, tw_end = 50, tw_length = 50 \<rparr>,
            v_start = Some 0, v_end = Some 0 \<rparr>,
          \<lparr> capacity = [4, 6], tw = \<lparr> tw_start = 0, tw_end = 50, tw_length = 50 \<rparr>,
            v_start = Some 0, v_end = Some 0 \<rparr>] \<rparr>"

theorem basic_vehicle_order_witness:
  "strict_weak_order {0..<length (vehicles ex_fleet)} (vehicle_higher ex_fleet)
   \<and> stable_sort (vehicle_higher ex_fleet) [0..<length (vehicles ex_fleet)] = [2, 0, 1]
   \<and> \<not> vehicle_higher ex_fleet 0 1 \<and> \<not> vehicle_higher ex_fleet 1 0
   \<and> capacity (vehicles ex_fleet ! 0) \<noteq> capacity (vehicles ex_fleet ! 1)
   \<and> mset [2, 0, 1] = mset [0..<length (vehicles ex_fleet)]"
proof -
  have v: "vehicle_higher ex_fleet 2 0" "vehicle_higher ex_fleet 2 1"
    "\<not> vehicle_higher ex_fleet 0 1" "\<not> vehicle_higher ex_fleet 1 0"
    "\<not> vehicle_higher ex_fleet 0 2" "\<not> vehicle_higher ex_fleet 1 2"
    "\<not> vehicle_higher ex_fleet 0 0" "\<not> vehicle_higher ex_fleet 1 1"
    "\<not> vehicle_higher ex_fleet 2 2"
    by (simp_all add: vehicle_higher_def ex_fleet_def amount_lt_def)
  have c: "capacity (vehicles ex_fleet ! 0) \<noteq> capacity (vehicles ex_fleet ! 1)"
    by (simp add: ex_fleet_def)
  have n: "{0..<length (vehicles ex_fleet)} = {0, 1, 2}"
    by (auto simp: ex_fleet_def)
  have swo: "strict_weak_order {0..<length (vehicles ex_fleet)} (vehicle_higher ex_fleet)"
    unfolding n strict_weak_order_def using v by auto
  have l: "[0..<length (vehicles ex_fleet)] = [0, 1, 2]"
    by (simp add: ex_fleet_def upt_rec)
  have s: "stable_sort (vehicle_higher ex_fleet) [0..<length (vehicles ex_fleet)] = [2, 0, 1]"
    unfolding l using v
    by (simp add: stable_sort_def merge_sort_with_buffer_def chunk_insertion_sort.simps
        insertion_step_def merge_adaptive_def)
  have "mset (stable_sort (vehicle_higher ex_fleet) [0..<length (vehicles ex_fleet)])
      = mset [0..<length (vehicles ex_fleet)]"
    using basic_vehicle_order[OF swo[unfolded vehicle_higher_eq[of ex_fleet]],
        of F T init lambda]
    unfolding Let_def by blast
  then have "mset [2, 0, 1] = mset [0..<length (vehicles ex_fleet)]"
    unfolding s .
  then show ?thesis
    using swo s v c by blast
qed

text \<open>
  Without the strict weak order the claim fails. In this fleet vehicle 2 is higher than
  vehicle 0 and neither is comparable with vehicle 1, so the comparator is no strict weak
  order. The insertion sort of the first half moves vehicle 2 to the front, over vehicle
  1: the two have incomparable, different capacities and do not keep their original
  order.
\<close>

definition ex_mixed_fleet :: "(32 word, 32 word) Input" where
  "ex_mixed_fleet = ex_input
     \<lparr> vehicles :=
         map (\<lambda>c. \<lparr> capacity = c, tw = \<lparr> tw_start = 0, tw_end = 50, tw_length = 50 \<rparr>,
                     v_start = Some 0, v_end = Some 0 \<rparr>)
           [[1, 5], [3, 3], [2, 6], [0, 0], [0, 0], [0, 0]] \<rparr>"

theorem basic_vehicle_order_counterexample:
  "stable_sort (vehicle_higher ex_mixed_fleet) [0..<length (vehicles ex_mixed_fleet)]
     = [2, 0, 1, 3, 4, 5]
   \<and> \<not> amount_lt (capacity (vehicles ex_mixed_fleet ! 1)) (capacity (vehicles ex_mixed_fleet ! 2))
   \<and> \<not> amount_lt (capacity (vehicles ex_mixed_fleet ! 2)) (capacity (vehicles ex_mixed_fleet ! 1))
   \<and> capacity (vehicles ex_mixed_fleet ! 1) \<noteq> capacity (vehicles ex_mixed_fleet ! 2)
   \<and> basic ex_float ex_routes ex_mixed_fleet NONE 0 =
       map_option Inr
         (basic_loop ex_float ex_routes ex_mixed_fleet NONE 0
            (map (empty_route_cost ex_mixed_fleet (vehicles ex_mixed_fleet ! 0))
               [0..<length (jobs ex_mixed_fleet)])
            [2, 0, 1, 3, 4, 5]
            (map (new_route ex_routes ex_mixed_fleet) [0..<length (vehicles ex_mixed_fleet)])
            [0..<length (jobs ex_mixed_fleet)])"
proof -
  have l: "[0..<length (vehicles ex_mixed_fleet)] = [0, 1, 2, 3, 4, 5]"
    by (simp add: ex_mixed_fleet_def upt_rec)
  have s: "stable_sort (vehicle_higher ex_mixed_fleet) [0..<length (vehicles ex_mixed_fleet)]
      = [2, 0, 1, 3, 4, 5]"
    unfolding l
    by (simp add: stable_sort_def merge_sort_with_buffer_def chunk_insertion_sort.simps
        insertion_step_def merge_adaptive_def vehicle_higher_def ex_mixed_fleet_def
        amount_lt_def)
  have c: "\<not> amount_lt (capacity (vehicles ex_mixed_fleet ! 1))
               (capacity (vehicles ex_mixed_fleet ! 2))"
    "\<not> amount_lt (capacity (vehicles ex_mixed_fleet ! 2))
               (capacity (vehicles ex_mixed_fleet ! 1))"
    "capacity (vehicles ex_mixed_fleet ! 1) \<noteq> capacity (vehicles ex_mixed_fleet ! 2)"
    by (simp_all add: ex_mixed_fleet_def amount_lt_def)
  have v: "vehicles ex_mixed_fleet \<noteq> []" by (simp add: ex_mixed_fleet_def)
  have b: "basic ex_float ex_routes ex_mixed_fleet NONE 0 =
       map_option Inr
         (basic_loop ex_float ex_routes ex_mixed_fleet NONE 0
            (map (empty_route_cost ex_mixed_fleet (vehicles ex_mixed_fleet ! 0))
               [0..<length (jobs ex_mixed_fleet)])
            (stable_sort (vehicle_higher ex_mixed_fleet)
               [0..<length (vehicles ex_mixed_fleet)])
            (map (new_route ex_routes ex_mixed_fleet) [0..<length (vehicles ex_mixed_fleet)])
            [0..<length (jobs ex_mixed_fleet)])"
    using v by (simp add: basic_def Let_def)
  show ?thesis
    using s c b[unfolded s] by blast
qed

subsection \<open>Regrets in \<open>dynamic_vehicle_choice\<close>\<close>

text \<open>
  The update of \<open>(jobs_min_costs[j], jobs_second_min_costs[j])\<close> for one job, as a scan
  over the costs of the remaining vehicles.
\<close>

definition min2_step :: "'a::linorder \<Rightarrow> 'a \<times> 'a \<Rightarrow> 'a \<times> 'a" where
  "min2_step c p = (if c \<le> fst p then (c, fst p) else if c < snd p then (fst p, c) else p)"

definition two_least :: "'a::linorder multiset \<Rightarrow> 'a \<times> 'a \<Rightarrow> bool" where
  "two_least M p \<longleftrightarrow>
     fst p \<le> snd p \<and> {#fst p, snd p#} \<subseteq># M \<and> (\<forall>x \<in># M - {#fst p, snd p#}. snd p \<le> x)"

lemma two_least_step:
  assumes "two_least M p"
  shows "two_least (add_mset c M) (min2_step c p)"
proof -
  obtain a b where p: "p = (a, b)" by (cases p)
  from assms p have ab: "a \<le> b" and sub: "{#a, b#} \<subseteq># M"
    and rest: "\<forall>x \<in># M - {#a, b#}. b \<le> x"
    by (auto simp: two_least_def)
  obtain R where M: "M = {#a, b#} + R"
    using sub by (metis subset_mset.add_diff_inverse)
  have R: "\<forall>x \<in># R. b \<le> x" using rest M by simp
  show ?thesis
  proof (cases "c \<le> a")
    case True
    have "add_mset c M - {#c, a#} = add_mset b R" by (simp add: M)
    then show ?thesis
      using True ab R by (auto simp: two_least_def min2_step_def p M)
  next
    case False
    show ?thesis
    proof (cases "c < b")
      case True
      have "add_mset c M - {#a, c#} = add_mset b R" by (simp add: M)
      then show ?thesis
        using True False ab R by (auto simp: two_least_def min2_step_def p M)
    next
      case F2: False
      have "add_mset c M - {#a, b#} = add_mset c R" by (simp add: M)
      then show ?thesis
        using F2 False ab R by (auto simp: two_least_def min2_step_def p M)
    qed
  qed
qed

lemma two_least_fold:
  assumes "two_least M p"
  shows "two_least (mset cs + M) (fold min2_step cs p)"
  using assms
proof (induction cs arbitrary: M p)
  case Nil
  then show ?case by simp
next
  case (Cons c cs)
  from Cons.IH[OF two_least_step[OF Cons.prems, of c]] show ?case by simp
qed

lemma two_least_Min:
  assumes "two_least M p"
  shows "fst p = Min (set_mset M)"
proof -
  obtain a b where p: "p = (a, b)" by (cases p)
  from assms p have ab: "a \<le> b" and sub: "{#a, b#} \<subseteq># M"
    and rest: "\<forall>x \<in># M - {#a, b#}. b \<le> x"
    by (auto simp: two_least_def)
  obtain R where M: "M = {#a, b#} + R"
    using sub by (metis subset_mset.add_diff_inverse)
  have R: "\<forall>x \<in># R. b \<le> x" using rest M by simp
  have "\<forall>x \<in># R. a \<le> x" using ab R by (meson order_trans)
  then have "Min (set_mset M) = a"
    using ab by (intro Min_eqI) (auto simp: M)
  then show ?thesis by (simp add: p)
qed

lemma two_least_regret:
  assumes "two_least M p" "c \<in># M"
  shows "(if fst p < c then fst p else snd p) = Min (set_mset (M - {#c#}))"
proof -
  obtain a b where p: "p = (a, b)" by (cases p)
  from assms p have ab: "a \<le> b" and sub: "{#a, b#} \<subseteq># M"
    and rest: "\<forall>x \<in># M - {#a, b#}. b \<le> x"
    by (auto simp: two_least_def)
  obtain R where M: "M = {#a, b#} + R"
    using sub by (metis subset_mset.add_diff_inverse)
  have R: "\<forall>x \<in># R. b \<le> x" using rest M by simp
  have ac: "a \<le> c" using assms(2) ab R by (auto simp: M)
  show ?thesis
  proof (cases "a < c")
    case True
    then have "c = b \<or> c \<in># R" using assms(2) by (auto simp: M)
    then have "a \<in># M - {#c#}" using True by (auto simp: M)
    moreover have "\<forall>x \<in># R. a \<le> x" using ab R by (meson order_trans)
    then have "\<forall>x \<in># M. a \<le> x" using ab by (auto simp: M)
    then have "\<forall>x \<in># M - {#c#}. a \<le> x" by (meson in_diffD)
    ultimately have "Min (set_mset (M - {#c#})) = a"
      by (intro Min_eqI) auto
    then show ?thesis using True by (simp add: p)
  next
    case False
    then have "c = a" using ac by simp
    then have "M - {#c#} = add_mset b R" by (simp add: M)
    then have "Min (set_mset (M - {#c#})) = b"
      using R by (intro Min_eqI) auto
    then show ?thesis using False by (simp add: p)
  qed
qed


text \<open>The inner loop over the vehicles touches the entries of job \<open>j\<close> only.\<close>

lemma min_costs_inner:
  assumes "j < length mins" "j < length secs"
  shows "fold (\<lambda>v_rank (jobs_min_costs, jobs_second_min_costs).
                 if costs ! j ! v_rank \<le> jobs_min_costs ! j then
                   (jobs_min_costs[j := costs ! j ! v_rank],
                    jobs_second_min_costs[j := jobs_min_costs ! j])
                 else if costs ! j ! v_rank < jobs_second_min_costs ! j then
                   (jobs_min_costs, jobs_second_min_costs[j := costs ! j ! v_rank])
                 else (jobs_min_costs, jobs_second_min_costs))
           vrs (mins, secs)
       = (mins[j := fst (fold min2_step (map (\<lambda>v. costs ! j ! v) vrs) (mins ! j, secs ! j))],
          secs[j := snd (fold min2_step (map (\<lambda>v. costs ! j ! v) vrs) (mins ! j, secs ! j))])"
  using assms
proof (induction vrs arbitrary: mins secs)
  case Nil
  then show ?case by simp
next
  case (Cons v vrs)
  show ?case
    using Cons.prems
    by (simp add: Cons.IH min2_step_def)
qed

lemma min_costs_scan_nth:
  assumes "j < n_jobs" "distinct unassigned" "set unassigned \<subseteq> {0..<n_jobs}"
  shows "(fst (min_costs_scan costs n_jobs unassigned vrs) ! j,
          snd (min_costs_scan costs n_jobs unassigned vrs) ! j)
       = (if j \<in> set unassigned
          then fold min2_step (map (\<lambda>v. costs ! j ! v) vrs) (- 1, - 1)
          else (- 1, - 1))"
proof -
  let ?inner = "\<lambda>job_rank.
      fold (\<lambda>v_rank (jobs_min_costs, jobs_second_min_costs).
              if costs ! job_rank ! v_rank \<le> jobs_min_costs ! job_rank then
                (jobs_min_costs[job_rank := costs ! job_rank ! v_rank],
                 jobs_second_min_costs[job_rank := jobs_min_costs ! job_rank])
              else if costs ! job_rank ! v_rank < jobs_second_min_costs ! job_rank then
                (jobs_min_costs, jobs_second_min_costs[job_rank := costs ! job_rank ! v_rank])
              else (jobs_min_costs, jobs_second_min_costs))
        vrs"
  have gen: "length mins = n_jobs \<Longrightarrow> length secs = n_jobs \<Longrightarrow>
      distinct un \<Longrightarrow> set un \<subseteq> {0..<n_jobs} \<Longrightarrow>
      (\<forall>k\<in>set un. mins ! k = - 1 \<and> secs ! k = - 1) \<Longrightarrow>
      (fst (fold ?inner un (mins, secs)) ! j, snd (fold ?inner un (mins, secs)) ! j)
       = (if j \<in> set un
          then fold min2_step (map (\<lambda>v. costs ! j ! v) vrs) (- 1, - 1)
          else (mins ! j, secs ! j))" for un mins secs
  proof (induction un arbitrary: mins secs)
    case Nil
    then show ?case by simp
  next
    case (Cons k un)
    let ?r = "fold min2_step (map (\<lambda>v. costs ! k ! v) vrs) (mins ! k, secs ! k)"
    have k: "k < n_jobs" using Cons.prems by simp
    have step: "?inner k (mins, secs) = (mins[k := fst ?r], secs[k := snd ?r])"
      using min_costs_inner[of k mins secs costs vrs] k Cons.prems by simp
    have pre: "\<forall>i\<in>set un. (mins[k := fst ?r]) ! i = - 1 \<and> (secs[k := snd ?r]) ! i = - 1"
    proof
      fix i assume i: "i \<in> set un"
      then have "k \<noteq> i" "mins ! i = - 1" "secs ! i = - 1" using Cons.prems by auto
      then show "(mins[k := fst ?r]) ! i = - 1 \<and> (secs[k := snd ?r]) ! i = - 1" by simp
    qed
    have IH': "(fst (fold ?inner un (mins[k := fst ?r], secs[k := snd ?r])) ! j,
         snd (fold ?inner un (mins[k := fst ?r], secs[k := snd ?r])) ! j)
         = (if j \<in> set un
            then fold min2_step (map (\<lambda>v. costs ! j ! v) vrs) (- 1, - 1)
            else ((mins[k := fst ?r]) ! j, (secs[k := snd ?r]) ! j))"
      using Cons.IH[of "mins[k := fst ?r]" "secs[k := snd ?r]"] Cons.prems pre by simp
    have kk: "mins ! k = - 1" "secs ! k = - 1" using Cons.prems by simp_all
    show ?case
    proof (cases "j = k")
      case True
      then have "j \<notin> set un" using Cons.prems by simp
      then show ?thesis
        using IH' True k Cons.prems(1,2) kk by (simp add: step)
    next
      case False
      then show ?thesis
        using IH' by (simp add: step)
    qed
  qed
  have init: "\<forall>k\<in>set unassigned.
      replicate n_jobs (- 1 :: 'a word) ! k = - 1 \<and> replicate n_jobs (- 1 :: 'a word) ! k = - 1"
    using assms(3) by auto
  have "(fst (fold ?inner unassigned (replicate n_jobs (- 1), replicate n_jobs (- 1))) ! j,
         snd (fold ?inner unassigned (replicate n_jobs (- 1), replicate n_jobs (- 1))) ! j)
       = (if j \<in> set unassigned
          then fold min2_step (map (\<lambda>v. costs ! j ! v) vrs) (- 1, - 1)
          else (replicate n_jobs (- 1) ! j, replicate n_jobs (- 1) ! j))"
    by (rule gen[OF _ _ assms(2,3) init]) simp_all
  then show ?thesis
    unfolding min_costs_scan_def using assms(1) by simp
qed

lemma compute_regrets_nth:
  assumes "j < n_jobs"
  shows "compute_regrets costs mins secs n_jobs unassigned v_rank ! j
       = (if j \<in> set unassigned
          then (if mins ! j < costs ! j ! v_rank then mins ! j else secs ! j)
          else - 1)"
proof -
  let ?f = "\<lambda>job_rank regrets.
             if mins ! job_rank < costs ! job_rank ! v_rank
             then regrets[job_rank := mins ! job_rank]
             else regrets[job_rank := secs ! job_rank]"
  have gen: "j < length acc \<Longrightarrow>
      length (fold ?f un acc) = length acc \<and>
      fold ?f un acc ! j
       = (if j \<in> set un
          then (if mins ! j < costs ! j ! v_rank then mins ! j else secs ! j)
          else acc ! j)" for un acc
  proof (induction un arbitrary: acc rule: rev_induct)
    case Nil
    then show ?case by simp
  next
    case (snoc k un)
    from snoc.IH[OF snoc.prems] show ?case
      using snoc.prems by (cases "k = j") auto
  qed
  show ?thesis
    unfolding compute_regrets_def
    using gen[of "replicate n_jobs (- 1)" unassigned] assms by simp
qed

lemma min_element_less:
  assumes "xs \<noteq> []"
  shows "min_element cmp xs < length xs"
proof -
  have gen: "set ks \<subseteq> {0..<length xs} \<Longrightarrow> acc < length xs \<Longrightarrow>
      fold (\<lambda>i smallest. if cmp (xs ! i) (xs ! smallest) then i else smallest) ks acc
        < length xs" for ks acc
    by (induction ks arbitrary: acc) auto
  show ?thesis
    unfolding min_element_def using assms by (intro gen) auto
qed

lemma erase_at_split:
  assumes "i < length xs"
  shows "xs = take i xs @ xs ! i # drop (Suc i) xs"
  using assms by (simp add: id_take_nth_drop)

lemma set_erase_at:
  assumes "distinct xs" "i < length xs"
  shows "set (erase_at i xs) = set xs - {xs ! i}"
proof -
  have d: "distinct (take i xs @ xs ! i # drop (Suc i) xs)"
    using assms erase_at_split[OF assms(2)] by simp
  have "set xs = set (take i xs @ xs ! i # drop (Suc i) xs)"
    using erase_at_split[OF assms(2)] by simp
  then show ?thesis
    using d by (auto simp: erase_at_def)
qed

lemma mset_map_erase_at:
  assumes "i < length xs"
  shows "mset (map f xs) - {#f (xs ! i)#} = mset (map f (erase_at i xs))"
proof -
  have "mset (map f xs) = mset (map f (take i xs @ xs ! i # drop (Suc i) xs))"
    using erase_at_split[OF assms] by simp
  then show ?thesis by (simp add: erase_at_def)
qed

lemma two_least_init: "two_least {#- 1, - 1 :: 'a::len word#} (- 1, - 1)"
  by (simp add: two_least_def)

text \<open>
  Claim C2, as the code has it. In an iteration of the main loop, with \<open>v_rank\<close> the vehicle
  chosen and \<open>others\<close> the vehicles that remain after it is erased, for every unassigned
  job \<open>j\<close>: \<open>jobs_min_costs[j]\<close> is the least empty-route cost of \<open>j\<close> over the remaining
  vehicles, the chosen one included; \<open>regrets[j]\<close> is \<open>jobs_min_costs[j]\<close> when that is
  strictly below the chosen vehicle's cost (another vehicle is strictly cheaper) and
  \<open>jobs_second_min_costs[j]\<close> otherwise (the chosen vehicle is a cheapest one); either way
  \<open>regrets[j]\<close> is the least cost of \<open>j\<close> over the other remaining vehicles, and the maximal
  cost when there is no other vehicle.
\<close>

theorem regret_is_best_alternative:
  fixes costs :: "'c::len word list list" and inp :: "('c word, 'd::len word) Input"
  assumes "vehicles_ranks \<noteq> []" "distinct vehicles_ranks"
    and "j \<in> set unassigned" "distinct unassigned"
    and "set unassigned \<subseteq> {0..<length (jobs inp)}"
  shows "(let (jobs_min_costs, jobs_second_min_costs) =
                 min_costs_scan costs (length (jobs inp)) unassigned vehicles_ranks;
              closest_jobs_count =
                 count_closest costs jobs_min_costs (length (vehicles inp)) unassigned
                   vehicles_ranks;
              chosen_vehicle = min_element (closer inp closest_jobs_count) vehicles_ranks;
              v_rank = vehicles_ranks ! chosen_vehicle;
              others = erase_at chosen_vehicle vehicles_ranks;
              regrets = compute_regrets costs jobs_min_costs jobs_second_min_costs
                          (length (jobs inp)) unassigned v_rank
          in jobs_min_costs ! j = Min (insert (- 1) ((\<lambda>v. costs ! j ! v) ` set vehicles_ranks))
           \<and> regrets ! j = (if jobs_min_costs ! j < costs ! j ! v_rank
                             then jobs_min_costs ! j else jobs_second_min_costs ! j)
           \<and> regrets ! j = Min (insert (- 1) ((\<lambda>v. costs ! j ! v) ` set others))
           \<and> (others = [] \<longrightarrow> regrets ! j = - 1))"
proof -
  let ?n = "length (jobs inp)"
  obtain mins secs where ms: "min_costs_scan costs ?n unassigned vehicles_ranks = (mins, secs)"
    by (cases "min_costs_scan costs ?n unassigned vehicles_ranks")
  define chosen where "chosen = min_element
      (closer inp (count_closest costs mins (length (vehicles inp)) unassigned vehicles_ranks))
      vehicles_ranks"
  define v_rank where "v_rank = vehicles_ranks ! chosen"
  define others where "others = erase_at chosen vehicles_ranks"
  define regrets where "regrets = compute_regrets costs mins secs ?n unassigned v_rank"
  define cs where "cs = map (\<lambda>v. costs ! j ! v) vehicles_ranks"
  define p where "p = fold min2_step cs (- 1, - 1)"
  define M where "M = mset cs + {#- 1, - 1#}"
  have j: "j < ?n" using assms(3,5) by auto
  have ch: "chosen < length vehicles_ranks"
    unfolding chosen_def by (rule min_element_less[OF assms(1)])
  have "(mins ! j, secs ! j) = p"
    using min_costs_scan_nth[OF j assms(4,5), of costs vehicles_ranks] assms(3)
    by (simp add: ms p_def cs_def)
  then have mj: "mins ! j = fst p" and sj: "secs ! j = snd p" by (simp_all add: prod_eq_iff)
  have tl: "two_least M p"
    unfolding M_def p_def by (rule two_least_fold[OF two_least_init])
  have c_in: "costs ! j ! v_rank \<in># M"
    using ch by (simp add: M_def cs_def v_rank_def)
  have 1: "mins ! j = Min (insert (- 1) ((\<lambda>v. costs ! j ! v) ` set vehicles_ranks))"
    using two_least_Min[OF tl] by (simp add: mj M_def cs_def)
  have 2: "regrets ! j = (if mins ! j < costs ! j ! v_rank then mins ! j else secs ! j)"
    unfolding regrets_def
    using compute_regrets_nth[OF j, of costs mins secs unassigned v_rank] assms(3) by simp
  have "M - {#costs ! j ! v_rank#} = mset (map (\<lambda>v. costs ! j ! v) others) + {#- 1, - 1#}"
    using mset_map_erase_at[OF ch, of "\<lambda>v. costs ! j ! v"] ch
    by (simp add: M_def cs_def v_rank_def others_def)
  then have sm: "set_mset (M - {#costs ! j ! v_rank#})
      = insert (- 1) ((\<lambda>v. costs ! j ! v) ` set others)"
    by simp
  have "regrets ! j = (if fst p < costs ! j ! v_rank then fst p else snd p)"
    using 2 by (simp only: mj sj)
  also have "\<dots> = Min (set_mset (M - {#costs ! j ! v_rank#}))"
    by (rule two_least_regret[OF tl c_in])
  also have "\<dots> = Min (insert (- 1) ((\<lambda>v. costs ! j ! v) ` set others))"
    by (simp only: sm)
  finally have 3: "regrets ! j = Min (insert (- 1) ((\<lambda>v. costs ! j ! v) ` set others))" .
  have 4: "others = [] \<longrightarrow> regrets ! j = - 1"
    using 3 by simp
  show ?thesis
    using 1 2 3 4
    by (simp add: ms Let_def chosen_def[symmetric] v_rank_def[symmetric]
        others_def[symmetric] regrets_def[symmetric])
qed

text \<open>
  One job at location 1 and two vehicles, one starting at location 0 (cost 6), one at
  location 5 (cost 10).
\<close>

definition ex_depots :: "(32 word, 32 word) Input" where
  "ex_depots = ex_input
     \<lparr> jobs := [\<lparr> index = 1, pickup = [0], delivery = [1],
                  tws = [\<lparr> tw_start = 0, tw_end = 100, tw_length = 100 \<rparr>] \<rparr>],
       vehicles :=
         [\<lparr> capacity = [10], tw = \<lparr> tw_start = 0, tw_end = 100, tw_length = 100 \<rparr>,
            v_start = Some 0, v_end = None \<rparr>,
          \<lparr> capacity = [10], tw = \<lparr> tw_start = 0, tw_end = 100, tw_length = 100 \<rparr>,
            v_start = Some 5, v_end = None \<rparr>] \<rparr>"

lemma ex_depots_costs: "dynamic_costs ex_depots [0, 1] = [[6, 10]]"
  by (simp add: dynamic_costs_def empty_route_cost_def ex_depots_def ex_input_def Let_def
      upt_rec)

lemma ex_depots_scan: "min_costs_scan [[6, 10 :: 32 word]] 1 [0] [0, 1] = ([6], [10])"
  by (simp add: min_costs_scan_def)

lemma replicate_two: "replicate 2 x = [x, x]"
  by (simp add: numeral_2_eq_2)

lemma ex_depots_closest: "count_closest [[6, 10 :: 32 word]] [6] 2 [0] [0, 1] = [1, 0]"
  by (simp add: count_closest_def replicate_two)

lemma ex_depots_chosen: "min_element (closer ex_depots [1, 0]) [0, 1] = 0"
  by (simp add: min_element_def closer_def Let_def)

lemma ex_depots_regrets: "compute_regrets [[6, 10 :: 32 word]] [6] [10] 1 [0] 0 = [10]"
  by (simp add: compute_regrets_def)

theorem regret_is_best_alternative_witness:
  "min_costs_scan (dynamic_costs ex_depots [0, 1]) (length (jobs ex_depots)) [0] [0, 1]
     = ([6], [10])
   \<and> [0, 1] ! min_element (closer ex_depots [1, 0]) [0, 1] = (0 :: nat)
   \<and> compute_regrets (dynamic_costs ex_depots [0, 1]) [6] [10] (length (jobs ex_depots)) [0] 0
     = [10]
   \<and> Min (insert (- 1) ((\<lambda>v. dynamic_costs ex_depots [0, 1] ! 0 ! v) ` set (erase_at 0 [0, 1])))
     = 10"
proof -
  have l: "length (jobs ex_depots) = 1" "length (vehicles ex_depots) = 2"
    by (simp_all add: ex_depots_def)
  have hyp: "[0, 1 :: nat] \<noteq> []" "distinct [0, 1 :: nat]" "(0 :: nat) \<in> set [0]"
    "distinct [0 :: nat]" "set [0 :: nat] \<subseteq> {0..<length (jobs ex_depots)}"
    by (simp_all add: l)
  have n: "[0, 1 :: nat] ! 0 = 0" "[10 :: 32 word] ! 0 = 10" by simp_all
  from regret_is_best_alternative[OF hyp, of "dynamic_costs ex_depots [0, 1]"]
  have "Min (insert (- 1) ((\<lambda>v. dynamic_costs ex_depots [0, 1] ! 0 ! v) ` set (erase_at 0 [0, 1])))
      = (10 :: 32 word)"
    unfolding l ex_depots_costs ex_depots_scan Let_def prod.case ex_depots_closest
      ex_depots_chosen n ex_depots_regrets
    by metis
  then show ?thesis
    unfolding l ex_depots_costs ex_depots_scan ex_depots_chosen n ex_depots_regrets
    by blast
qed

text \<open>
  The claim as the spec words it fails there: vehicle 0 is chosen and is strictly the
  cheapest for job 0, yet the regret of job 0 is the second smallest cost 10, not the
  smallest cost 6.
\<close>

theorem regret_strictly_best_counterexample:
  "[0, 1] ! min_element
       (closer ex_depots
          (count_closest (dynamic_costs ex_depots [0, 1])
             (fst (min_costs_scan (dynamic_costs ex_depots [0, 1]) 1 [0] [0, 1])) 2 [0] [0, 1]))
       [0, 1] = (0 :: nat)
   \<and> dynamic_costs ex_depots [0, 1] ! 0 ! 0 < dynamic_costs ex_depots [0, 1] ! 0 ! 1
   \<and> fst (min_costs_scan (dynamic_costs ex_depots [0, 1]) 1 [0] [0, 1]) ! 0 = 6
   \<and> compute_regrets (dynamic_costs ex_depots [0, 1])
        (fst (min_costs_scan (dynamic_costs ex_depots [0, 1]) 1 [0] [0, 1]))
        (snd (min_costs_scan (dynamic_costs ex_depots [0, 1]) 1 [0] [0, 1])) 1 [0] 0 ! 0 = 10
   \<and> compute_regrets (dynamic_costs ex_depots [0, 1])
        (fst (min_costs_scan (dynamic_costs ex_depots [0, 1]) 1 [0] [0, 1]))
        (snd (min_costs_scan (dynamic_costs ex_depots [0, 1]) 1 [0] [0, 1])) 1 [0] 0 ! 0
      \<noteq> fst (min_costs_scan (dynamic_costs ex_depots [0, 1]) 1 [0] [0, 1]) ! 0"
  unfolding ex_depots_costs ex_depots_scan fst_conv snd_conv ex_depots_closest
    ex_depots_chosen ex_depots_regrets
  by simp

subsection \<open>The greedy insertion loop\<close>

text \<open>
  A scan that keeps the best value seen so far and replaces it only by a strictly smaller
  value of an element that passes the test: the shape of the two nested loops over jobs
  and positions.
\<close>

definition scan_step :: "('x \<Rightarrow> 'f::linorder) \<Rightarrow> ('x \<Rightarrow> bool) \<Rightarrow> 'x \<Rightarrow> 'f \<times> 'x \<Rightarrow> 'f \<times> 'x" where
  "scan_step f P x best = (if f x < fst best \<and> P x then (f x, x) else best)"

definition scan_result ::
  "('x \<Rightarrow> 'f::linorder) \<Rightarrow> ('x \<Rightarrow> bool) \<Rightarrow> 'x list \<Rightarrow> 'f \<times> 'x \<Rightarrow> 'f \<times> 'x \<Rightarrow> bool" where
  "scan_result f P xs init res \<longleftrightarrow>
     (\<forall>x\<in>set xs. P x \<longrightarrow> fst res \<le> f x) \<and>
     (\<not> fst res < fst init \<longrightarrow> res = init) \<and>
     (fst res < fst init \<longrightarrow>
        (\<exists>i<length xs. xs ! i = snd res \<and> P (xs ! i) \<and> f (xs ! i) = fst res \<and>
                        (\<forall>k<i. P (xs ! k) \<longrightarrow> fst res < f (xs ! k))))"

lemma scan_result_fold: "scan_result f P xs init (fold (scan_step f P) xs init)"
proof (induction xs rule: rev_induct)
  case Nil
  then show ?case by (simp add: scan_result_def)
next
  case (snoc x xs)
  let ?r = "fold (scan_step f P) xs init"
  from snoc have all: "\<forall>y\<in>set xs. P y \<longrightarrow> fst ?r \<le> f y"
    and same: "\<not> fst ?r < fst init \<longrightarrow> ?r = init"
    and less: "fst ?r < fst init \<longrightarrow>
        (\<exists>i<length xs. xs ! i = snd ?r \<and> P (xs ! i) \<and> f (xs ! i) = fst ?r \<and>
                        (\<forall>k<i. P (xs ! k) \<longrightarrow> fst ?r < f (xs ! k)))"
    by (simp_all add: scan_result_def)
  have le: "fst ?r \<le> fst init" using same by (cases "fst ?r < fst init") auto
  show ?case
  proof (cases "f x < fst ?r \<and> P x")
    case True
    then have r: "fold (scan_step f P) (xs @ [x]) init = (f x, x)"
      by (simp add: scan_step_def)
    have 1: "\<forall>y\<in>set (xs @ [x]). P y \<longrightarrow> f x \<le> f y"
      using all True by fastforce
    have 2: "f x < fst init" using True le by (meson less_le_trans)
    have "\<forall>k<length xs. P (xs ! k) \<longrightarrow> f x < f (xs ! k)"
      using all True by fastforce
    then have 3: "\<exists>i<length (xs @ [x]). (xs @ [x]) ! i = x \<and> P ((xs @ [x]) ! i)
        \<and> f ((xs @ [x]) ! i) = f x \<and> (\<forall>k<i. P ((xs @ [x]) ! k) \<longrightarrow> f x < f ((xs @ [x]) ! k))"
      using True by (intro exI[of _ "length xs"]) (simp add: nth_append)
    show ?thesis
      unfolding scan_result_def r using 1 2 3 by simp
  next
    case False
    then have r: "fold (scan_step f P) (xs @ [x]) init = ?r"
      by (auto simp: scan_step_def)
    have 1: "\<forall>y\<in>set (xs @ [x]). P y \<longrightarrow> fst ?r \<le> f y"
      using all False by auto
    have 3: "fst ?r < fst init \<longrightarrow>
        (\<exists>i<length (xs @ [x]). (xs @ [x]) ! i = snd ?r \<and> P ((xs @ [x]) ! i)
           \<and> f ((xs @ [x]) ! i) = fst ?r
           \<and> (\<forall>k<i. P ((xs @ [x]) ! k) \<longrightarrow> fst ?r < f ((xs @ [x]) ! k)))"
    proof
      assume "fst ?r < fst init"
      with less obtain i where i: "i < length xs" "xs ! i = snd ?r" "P (xs ! i)"
        "f (xs ! i) = fst ?r" "\<forall>k<i. P (xs ! k) \<longrightarrow> fst ?r < f (xs ! k)"
        by blast
      then show "\<exists>i<length (xs @ [x]). (xs @ [x]) ! i = snd ?r \<and> P ((xs @ [x]) ! i)
           \<and> f ((xs @ [x]) ! i) = fst ?r
           \<and> (\<forall>k<i. P ((xs @ [x]) ! k) \<longrightarrow> fst ?r < f ((xs @ [x]) ! k))"
        by (intro exI[of _ i]) (simp add: nth_append)
    qed
    show ?thesis
      unfolding scan_result_def r using 1 same 3 by blast
  qed
qed

text \<open>The pairs the two loops visit, in the order they visit them.\<close>

definition candidates :: "('c, 'd) Input \<Rightarrow> Index \<Rightarrow> nat \<Rightarrow> Index list \<Rightarrow> (Index \<times> Index) list" where
  "candidates inp v_rank n unassigned =
     concat (map (\<lambda>job_rank. if vehicle_ok_with_job inp v_rank job_rank
                              then map (Pair job_rank) [0..<Suc n] else [])
               unassigned)"

lemma set_candidates:
  "set (candidates inp v_rank n unassigned)
     = {(j, r). j \<in> set unassigned \<and> vehicle_ok_with_job inp v_rank j \<and> r \<le> n}"
  by (auto simp: candidates_def less_Suc_eq_le simp del: upt_Suc)

definition lex_less :: "Index \<times> Index \<Rightarrow> Index \<times> Index \<Rightarrow> bool" where
  "lex_less a b \<longleftrightarrow> fst a < fst b \<or> (fst a = fst b \<and> snd a < snd b)"

lemma sorted_candidates:
  assumes "sorted_wrt (<) unassigned"
  shows "sorted_wrt lex_less (candidates inp v_rank n unassigned)"
  using assms
proof (induction unassigned)
  case Nil
  then show ?case by (simp add: candidates_def)
next
  case (Cons j un)
  have tl: "sorted_wrt lex_less (candidates inp v_rank n un)"
    using Cons by simp
  have hd: "sorted_wrt lex_less (map (Pair j) [0..<Suc n])"
    unfolding sorted_wrt_map
    by (rule sorted_wrt_mono_rel[of _ "(<)"]) (auto simp: lex_less_def simp del: upt_Suc)
  have cross: "\<forall>a\<in>set (map (Pair j) [0..<Suc n]). \<forall>b\<in>set (candidates inp v_rank n un).
      lex_less a b"
    using Cons.prems by (auto simp: set_candidates lex_less_def simp del: upt_Suc)
  have split: "candidates inp v_rank n (j # un)
      = (if vehicle_ok_with_job inp v_rank j then map (Pair j) [0..<Suc n] else [])
        @ candidates inp v_rank n un"
    by (simp add: candidates_def)
  show ?case
  proof (cases "vehicle_ok_with_job inp v_rank j")
    case True
    then show ?thesis
      unfolding split sorted_wrt_append using tl hd cross by simp
  next
    case False
    then show ?thesis
      unfolding split using tl by simp
  qed
qed

text \<open>The test and the value of a pair in the greedy loop.\<close>

definition insertion_ok ::
  "('c, 'd, 'r) RouteClass \<Rightarrow> ('c, 'd) Input \<Rightarrow> 'r \<Rightarrow> Index \<times> Index \<Rightarrow> bool" where
  "insertion_ok T inp current_r x \<longleftrightarrow>
     is_valid_addition_for_capacity T current_r inp
       (pickup (jobs inp ! fst x)) (delivery (jobs inp ! fst x)) (snd x) \<and>
     is_valid_addition_for_tw T current_r inp (fst x) (snd x)"

lemma greedy_scan_fold:
  "greedy_scan F T inp lambda v_rank current_r unassigned weight
     = fold (scan_step (\<lambda>x. current_cost F T inp lambda v_rank current_r weight (fst x) (snd x))
                       (insertion_ok T inp current_r))
         (candidates inp v_rank (length (route_of T current_r)) unassigned)
         (float_max F, 0, 0)"
proof -
  let ?f = "\<lambda>x. current_cost F T inp lambda v_rank current_r weight (fst x) (snd x)"
  let ?P = "insertion_ok T inp current_r"
  let ?n = "length (route_of T current_r)"
  have inner: "fold (\<lambda>r (best_cost, best_job_rank, best_r).
                    if current_cost F T inp lambda v_rank current_r weight j r < best_cost \<and>
                       is_valid_addition_for_capacity T current_r inp
                         (pickup (jobs inp ! j)) (delivery (jobs inp ! j)) r \<and>
                       is_valid_addition_for_tw T current_r inp j r
                    then (current_cost F T inp lambda v_rank current_r weight j r, j, r)
                    else (best_cost, best_job_rank, best_r)) rs best
        = fold (scan_step ?f ?P) (map (Pair j) rs) best" for j rs best
    by (induction rs arbitrary: best)
      (auto simp: scan_step_def insertion_ok_def split: prod.splits)
  have outer: "fold (\<lambda>job_rank best.
             if \<not> vehicle_ok_with_job inp v_rank job_rank then best
             else fold (scan_step ?f ?P) (map (Pair job_rank) [0..<Suc ?n]) best) un best
        = fold (scan_step ?f ?P) (candidates inp v_rank ?n un) best" for un best
    by (induction un arbitrary: best) (auto simp: candidates_def simp del: upt_Suc)
  show ?thesis
    unfolding greedy_scan_def inner outer ..
qed

text \<open>A feasible insertion for the current vehicle: what the two loops test.\<close>

definition feasible_insertion ::
  "('c, 'd, 'r) RouteClass \<Rightarrow> ('c, 'd) Input \<Rightarrow> Index \<Rightarrow> 'r \<Rightarrow> Index list \<Rightarrow> Index \<Rightarrow> Index
     \<Rightarrow> bool" where
  "feasible_insertion T inp v_rank current_r unassigned j r \<longleftrightarrow>
     j \<in> set unassigned \<and> vehicle_ok_with_job inp v_rank j \<and>
     r \<le> length (route_of T current_r) \<and>
     is_valid_addition_for_capacity T current_r inp
       (pickup (jobs inp ! j)) (delivery (jobs inp ! j)) r \<and>
     is_valid_addition_for_tw T current_r inp j r"

lemma feasible_insertion_candidates:
  "feasible_insertion T inp v_rank current_r unassigned j r \<longleftrightarrow>
     (j, r) \<in> set (candidates inp v_rank (length (route_of T current_r)) unassigned)
     \<and> insertion_ok T inp current_r (j, r)"
  by (auto simp: feasible_insertion_def set_candidates insertion_ok_def)

lemma greedy_scan_result:
  "scan_result (\<lambda>x. current_cost F T inp lambda v_rank current_r weight (fst x) (snd x))
     (insertion_ok T inp current_r)
     (candidates inp v_rank (length (route_of T current_r)) unassigned)
     (float_max F, 0, 0)
     (greedy_scan F T inp lambda v_rank current_r unassigned weight)"
  unfolding greedy_scan_fold by (rule scan_result_fold)

lemma greedy_scan_none:
  assumes "greedy_scan F T inp lambda v_rank current_r unassigned weight = (bc, bj, br)"
    and "\<not> bc < float_max F"
    and "feasible_insertion T inp v_rank current_r unassigned j r"
  shows "\<not> current_cost F T inp lambda v_rank current_r weight j r < float_max F"
proof -
  let ?f = "\<lambda>x. current_cost F T inp lambda v_rank current_r weight (fst x) (snd x)"
  note s = greedy_scan_result[of F T inp lambda v_rank current_r weight unassigned,
      unfolded scan_result_def assms(1)]
  have "bc = float_max F" using s assms(2) by simp
  moreover have "bc \<le> ?f (j, r)"
    using s assms(3) unfolding feasible_insertion_candidates by fastforce
  ultimately show ?thesis by simp
qed

lemma greedy_scan_some:
  assumes "greedy_scan F T inp lambda v_rank current_r unassigned weight = (bc, bj, br)"
    and "bc < float_max F"
  shows "feasible_insertion T inp v_rank current_r unassigned bj br"
    and "current_cost F T inp lambda v_rank current_r weight bj br = bc"
    and "feasible_insertion T inp v_rank current_r unassigned j r
           \<Longrightarrow> bc \<le> current_cost F T inp lambda v_rank current_r weight j r"
    and "sorted_wrt (<) unassigned
           \<Longrightarrow> feasible_insertion T inp v_rank current_r unassigned j r
           \<Longrightarrow> current_cost F T inp lambda v_rank current_r weight j r = bc
           \<Longrightarrow> bj < j \<or> (bj = j \<and> br \<le> r)"
proof -
  let ?f = "\<lambda>x. current_cost F T inp lambda v_rank current_r weight (fst x) (snd x)"
  let ?P = "insertion_ok T inp current_r"
  let ?cs = "candidates inp v_rank (length (route_of T current_r)) unassigned"
  note s = greedy_scan_result[of F T inp lambda v_rank current_r weight unassigned,
      unfolded scan_result_def assms(1)]
  from s assms(2) obtain i where i: "i < length ?cs" "?cs ! i = (bj, br)" "?P (?cs ! i)"
    "?f (?cs ! i) = bc" "\<forall>k<i. ?P (?cs ! k) \<longrightarrow> bc < ?f (?cs ! k)"
    by auto
  have mem: "(bj, br) \<in> set ?cs" using i(1,2) by (metis nth_mem)
  show "feasible_insertion T inp v_rank current_r unassigned bj br"
    unfolding feasible_insertion_candidates using mem i(2,3) by simp
  show "current_cost F T inp lambda v_rank current_r weight bj br = bc"
    using i(2,4) by simp
  show "bc \<le> current_cost F T inp lambda v_rank current_r weight j r"
    if "feasible_insertion T inp v_rank current_r unassigned j r"
    using s that unfolding feasible_insertion_candidates by fastforce
  show "bj < j \<or> (bj = j \<and> br \<le> r)"
    if srt: "sorted_wrt (<) unassigned"
      and fe: "feasible_insertion T inp v_rank current_r unassigned j r"
      and eq: "current_cost F T inp lambda v_rank current_r weight j r = bc"
  proof -
    from fe obtain k where k: "k < length ?cs" "?cs ! k = (j, r)" and P: "?P (j, r)"
      unfolding feasible_insertion_candidates by (metis in_set_conv_nth)
    have "\<not> k < i" using i(5) k P eq by fastforce
    then consider "k = i" | "i < k" by linarith
    then show ?thesis
    proof cases
      case 1
      then show ?thesis using i(2) k(2) by simp
    next
      case 2
      have "lex_less (?cs ! i) (?cs ! k)"
        using sorted_candidates[OF srt, of inp v_rank "length (route_of T current_r)"] 2 k(1)
        by (simp add: sorted_wrt_iff_nth_less)
      then show ?thesis using i(2) k(2) by (auto simp: lex_less_def)
    qed
  qed
qed

lemma greedy_loop_stop:
  assumes "greedy_scan F T inp lambda v_rank current_r unassigned weight = (bc, bj, br)"
    and "\<not> bc < float_max F"
  shows "greedy_loop F T inp lambda v_rank weight current_r unassigned
           = Some (current_r, unassigned)"
  using assms by (subst greedy_loop.simps) simp

lemma greedy_loop_go:
  assumes "greedy_scan F T inp lambda v_rank current_r unassigned weight = (bc, bj, br)"
    and "bc < float_max F"
  shows "greedy_loop F T inp lambda v_rank weight current_r unassigned
           = greedy_loop F T inp lambda v_rank weight
               (update_amounts T (add T current_r inp bj br) inp) (set_erase bj unassigned)"
  using assms by (subst greedy_loop.simps) simp

lemma current_cost_eq:
  "current_cost F T inp lambda v_rank current_r weight j r =
     fsub F (of_gain F (addition_cost inp (matrix inp) j (vehicles inp ! v_rank)
                          (route_of T current_r) r))
       (fmul F lambda (of_cost F (weight j)))"
  by (simp add: current_cost_def Let_def)

lemma greedy_loop_iteration:
  fixes F :: "('c::len word, 'f::linorder) Float"
    and T :: "('c word, 'd, 'r) RouteClass"
  assumes "sorted_wrt (<) unassigned"
    and "\<forall>j r. feasible_insertion T inp v_rank current_r unassigned j r \<longrightarrow>
            current_cost F T inp lambda v_rank current_r weight j r < float_max F"
  shows "(if \<exists>j r. feasible_insertion T inp v_rank current_r unassigned j r then
            \<exists>bj br.
              feasible_insertion T inp v_rank current_r unassigned bj br \<and>
              (\<forall>j r. feasible_insertion T inp v_rank current_r unassigned j r \<longrightarrow>
                 current_cost F T inp lambda v_rank current_r weight bj br
                   \<le> current_cost F T inp lambda v_rank current_r weight j r \<and>
                 (current_cost F T inp lambda v_rank current_r weight j r
                    = current_cost F T inp lambda v_rank current_r weight bj br
                  \<longrightarrow> bj < j \<or> (bj = j \<and> br \<le> r))) \<and>
              greedy_loop F T inp lambda v_rank weight current_r unassigned
                = greedy_loop F T inp lambda v_rank weight
                    (update_amounts T (add T current_r inp bj br) inp)
                    (set_erase bj unassigned)
          else greedy_loop F T inp lambda v_rank weight current_r unassigned
                 = Some (current_r, unassigned))"
proof -
  obtain bc bj br where sc:
    "greedy_scan F T inp lambda v_rank current_r unassigned weight = (bc, bj, br)"
    by (cases "greedy_scan F T inp lambda v_rank current_r unassigned weight") auto
  show ?thesis
  proof (cases "\<exists>j r. feasible_insertion T inp v_rank current_r unassigned j r")
    case True
    then obtain j r where fe: "feasible_insertion T inp v_rank current_r unassigned j r"
      by blast
    have lt: "bc < float_max F"
      using greedy_scan_none[OF sc _ fe] assms(2) fe by blast
    note some = greedy_scan_some[OF sc lt]
    have "feasible_insertion T inp v_rank current_r unassigned bj br \<and>
          (\<forall>j r. feasible_insertion T inp v_rank current_r unassigned j r \<longrightarrow>
             current_cost F T inp lambda v_rank current_r weight bj br
               \<le> current_cost F T inp lambda v_rank current_r weight j r \<and>
             (current_cost F T inp lambda v_rank current_r weight j r
                = current_cost F T inp lambda v_rank current_r weight bj br
              \<longrightarrow> bj < j \<or> (bj = j \<and> br \<le> r))) \<and>
          greedy_loop F T inp lambda v_rank weight current_r unassigned
            = greedy_loop F T inp lambda v_rank weight
                (update_amounts T (add T current_r inp bj br) inp)
                (set_erase bj unassigned)"
      using some(1) some(3) some(4)[OF assms(1)] greedy_loop_go[OF sc lt]
      unfolding some(2) by blast
    then show ?thesis using True by auto
  next
    case False
    have "\<not> bc < float_max F"
      using greedy_scan_some(1)[OF sc] False by blast
    then show ?thesis
      using False greedy_loop_stop[OF sc] by simp
  qed
qed

text \<open>Where the two heuristics run the greedy loop, and with which weights.\<close>

lemma basic_loop_runs_greedy_loop:
  "basic_loop F T inp init lambda costs (v_rank # rest) routes pending =
     (let first_r = fst (init_step T inp init v_rank (routes ! v_rank) pending
                           (\<lambda>job_rank. False) (\<lambda>job_rank. costs ! job_rank));
          left = snd (init_step T inp init v_rank (routes ! v_rank) pending
                        (\<lambda>job_rank. False) (\<lambda>job_rank. costs ! job_rank))
      in Option.bind
           (greedy_loop F T inp lambda v_rank (\<lambda>job_rank. costs ! job_rank) first_r left)
           (\<lambda>(current_r, unassigned).
              basic_loop F T inp init lambda costs rest (routes[v_rank := current_r])
                unassigned))"
  by (simp add: Let_def split_beta)

lemma dynamic_loop_runs_greedy_loop:
  assumes "vehicles_ranks \<noteq> []" "pending \<noteq> []"
  shows "(let jobs_min_costs =
                fst (min_costs_scan table (length (jobs inp)) pending vehicles_ranks);
              jobs_second_min_costs =
                snd (min_costs_scan table (length (jobs inp)) pending vehicles_ranks);
              closest_jobs_count =
                count_closest table jobs_min_costs (length (vehicles inp)) pending
                  vehicles_ranks;
              chosen_vehicle = min_element (closer inp closest_jobs_count) vehicles_ranks;
              v = vehicles_ranks ! chosen_vehicle;
              regrets = compute_regrets table jobs_min_costs jobs_second_min_costs
                          (length (jobs inp)) pending v;
              first_r = fst (init_step T inp init v (routes ! v) pending
                               (\<lambda>job_rank. jobs_min_costs ! job_rank < table ! job_rank ! v)
                               (\<lambda>job_rank. table ! job_rank ! v));
              left = snd (init_step T inp init v (routes ! v) pending
                            (\<lambda>job_rank. jobs_min_costs ! job_rank < table ! job_rank ! v)
                            (\<lambda>job_rank. table ! job_rank ! v))
          in dynamic_loop F T inp init lambda table routes vehicles_ranks pending =
               Option.bind
                 (greedy_loop F T inp lambda v (\<lambda>job_rank. regrets ! job_rank) first_r left)
                 (\<lambda>(current_r, unassigned).
                    dynamic_loop F T inp init lambda table (routes[v := current_r])
                      (erase_at chosen_vehicle vehicles_ranks) unassigned))"
  using assms by (subst dynamic_loop.simps) (simp add: Let_def split_beta)

text \<open>
  Claim C6. Take one iteration of the greedy loop for vehicle \<open>v_rank\<close>, with the
  unassigned set in ascending order and every feasible insertion's value
  \<open>addition_cost - lambda * weight[job_rank]\<close> below \<open>std::numeric_limits<float>::max()\<close>.
  If a feasible insertion exists, the loop inserts a feasible pair \<open>(bj, br)\<close> of least
  value, the first in scan order among those of least value, erases \<open>bj\<close> from the
  unassigned set and goes on; if none exists, the loop ends with the route and the set as
  they are. \<open>basic\<close> runs this loop for each vehicle with \<open>costs[job_rank]\<close> as the weight,
  and \<open>dynamic_vehicle_choice\<close> with \<open>regrets[job_rank]\<close>, the regrets recomputed for the
  vehicle chosen.
\<close>

theorem greedy_loop_inserts_cheapest:
  fixes F :: "('c::len word, 'f::linorder) Float"
    and T :: "('c word, 'd::len word, 'r) RouteClass"
    and inp :: "('c word, 'd word) Input"
  assumes "sorted_wrt (<) unassigned"
    and "\<forall>j r. feasible_insertion T inp v_rank current_r unassigned j r \<longrightarrow>
            fsub F (of_gain F (addition_cost inp (matrix inp) j (vehicles inp ! v_rank)
                                 (route_of T current_r) r))
              (fmul F lambda (of_cost F (weight j))) < float_max F"
  shows "(let objective =
                (\<lambda>j r. fsub F (of_gain F (addition_cost inp (matrix inp) j
                                            (vehicles inp ! v_rank) (route_of T current_r) r))
                          (fmul F lambda (of_cost F (weight j))))
          in if \<exists>j r. feasible_insertion T inp v_rank current_r unassigned j r then
               \<exists>bj br.
                 feasible_insertion T inp v_rank current_r unassigned bj br \<and>
                 (\<forall>j r. feasible_insertion T inp v_rank current_r unassigned j r \<longrightarrow>
                    objective bj br \<le> objective j r \<and>
                    (objective j r = objective bj br \<longrightarrow> bj < j \<or> (bj = j \<and> br \<le> r))) \<and>
                 greedy_loop F T inp lambda v_rank weight current_r unassigned
                   = greedy_loop F T inp lambda v_rank weight
                       (update_amounts T (add T current_r inp bj br) inp)
                       (set_erase bj unassigned)
             else greedy_loop F T inp lambda v_rank weight current_r unassigned
                    = Some (current_r, unassigned))
       \<and> basic_loop F T inp init lambda costs (v_rank # rest) routes pending =
           (let first_r = fst (init_step T inp init v_rank (routes ! v_rank) pending
                                 (\<lambda>job_rank. False) (\<lambda>job_rank. costs ! job_rank));
                left = snd (init_step T inp init v_rank (routes ! v_rank) pending
                              (\<lambda>job_rank. False) (\<lambda>job_rank. costs ! job_rank))
            in Option.bind
                 (greedy_loop F T inp lambda v_rank (\<lambda>job_rank. costs ! job_rank) first_r left)
                 (\<lambda>(current_r, unassigned).
                    basic_loop F T inp init lambda costs rest (routes[v_rank := current_r])
                      unassigned))
       \<and> (vehicles_ranks \<noteq> [] \<and> pending \<noteq> [] \<longrightarrow>
           (let jobs_min_costs =
                  fst (min_costs_scan table (length (jobs inp)) pending vehicles_ranks);
                jobs_second_min_costs =
                  snd (min_costs_scan table (length (jobs inp)) pending vehicles_ranks);
                closest_jobs_count =
                  count_closest table jobs_min_costs (length (vehicles inp)) pending
                    vehicles_ranks;
                chosen_vehicle = min_element (closer inp closest_jobs_count) vehicles_ranks;
                v = vehicles_ranks ! chosen_vehicle;
                regrets = compute_regrets table jobs_min_costs jobs_second_min_costs
                            (length (jobs inp)) pending v;
                first_r = fst (init_step T inp init v (routes ! v) pending
                                 (\<lambda>job_rank. jobs_min_costs ! job_rank < table ! job_rank ! v)
                                 (\<lambda>job_rank. table ! job_rank ! v));
                left = snd (init_step T inp init v (routes ! v) pending
                              (\<lambda>job_rank. jobs_min_costs ! job_rank < table ! job_rank ! v)
                              (\<lambda>job_rank. table ! job_rank ! v))
            in dynamic_loop F T inp init lambda table routes vehicles_ranks pending =
                 Option.bind
                   (greedy_loop F T inp lambda v (\<lambda>job_rank. regrets ! job_rank) first_r left)
                   (\<lambda>(current_r, unassigned).
                      dynamic_loop F T inp init lambda table (routes[v := current_r])
                        (erase_at chosen_vehicle vehicles_ranks) unassigned)))"
proof (intro conjI impI)
  show "(let objective =
                (\<lambda>j r. fsub F (of_gain F (addition_cost inp (matrix inp) j
                                            (vehicles inp ! v_rank) (route_of T current_r) r))
                          (fmul F lambda (of_cost F (weight j))))
          in if \<exists>j r. feasible_insertion T inp v_rank current_r unassigned j r then
               \<exists>bj br.
                 feasible_insertion T inp v_rank current_r unassigned bj br \<and>
                 (\<forall>j r. feasible_insertion T inp v_rank current_r unassigned j r \<longrightarrow>
                    objective bj br \<le> objective j r \<and>
                    (objective j r = objective bj br \<longrightarrow> bj < j \<or> (bj = j \<and> br \<le> r))) \<and>
                 greedy_loop F T inp lambda v_rank weight current_r unassigned
                   = greedy_loop F T inp lambda v_rank weight
                       (update_amounts T (add T current_r inp bj br) inp)
                       (set_erase bj unassigned)
             else greedy_loop F T inp lambda v_rank weight current_r unassigned
                    = Some (current_r, unassigned))"
    using greedy_loop_iteration[of unassigned T inp v_rank current_r F lambda weight] assms
    unfolding current_cost_eq Let_def by blast
next
  show "basic_loop F T inp init lambda costs (v_rank # rest) routes pending =
           (let first_r = fst (init_step T inp init v_rank (routes ! v_rank) pending
                                 (\<lambda>job_rank. False) (\<lambda>job_rank. costs ! job_rank));
                left = snd (init_step T inp init v_rank (routes ! v_rank) pending
                              (\<lambda>job_rank. False) (\<lambda>job_rank. costs ! job_rank))
            in Option.bind
                 (greedy_loop F T inp lambda v_rank (\<lambda>job_rank. costs ! job_rank) first_r left)
                 (\<lambda>(current_r, unassigned).
                    basic_loop F T inp init lambda costs rest (routes[v_rank := current_r])
                      unassigned))"
    by (rule basic_loop_runs_greedy_loop)
next
  assume "vehicles_ranks \<noteq> [] \<and> pending \<noteq> []"
  then show "(let jobs_min_costs =
                  fst (min_costs_scan table (length (jobs inp)) pending vehicles_ranks);
                jobs_second_min_costs =
                  snd (min_costs_scan table (length (jobs inp)) pending vehicles_ranks);
                closest_jobs_count =
                  count_closest table jobs_min_costs (length (vehicles inp)) pending
                    vehicles_ranks;
                chosen_vehicle = min_element (closer inp closest_jobs_count) vehicles_ranks;
                v = vehicles_ranks ! chosen_vehicle;
                regrets = compute_regrets table jobs_min_costs jobs_second_min_costs
                            (length (jobs inp)) pending v;
                first_r = fst (init_step T inp init v (routes ! v) pending
                                 (\<lambda>job_rank. jobs_min_costs ! job_rank < table ! job_rank ! v)
                                 (\<lambda>job_rank. table ! job_rank ! v));
                left = snd (init_step T inp init v (routes ! v) pending
                              (\<lambda>job_rank. jobs_min_costs ! job_rank < table ! job_rank ! v)
                              (\<lambda>job_rank. table ! job_rank ! v))
            in dynamic_loop F T inp init lambda table routes vehicles_ranks pending =
                 Option.bind
                   (greedy_loop F T inp lambda v (\<lambda>job_rank. regrets ! job_rank) first_r left)
                   (\<lambda>(current_r, unassigned).
                      dynamic_loop F T inp init lambda table (routes[v := current_r])
                        (erase_at chosen_vehicle vehicles_ranks) unassigned))"
    using dynamic_loop_runs_greedy_loop[of vehicles_ranks pending table inp T init routes F lambda]
    by blast
qed

text \<open>
  Vehicle 0 of \<open>ex_input\<close> with an empty route, jobs 0 and 1 unassigned, \<open>lambda = 1\<close> and
  the weights 9 and 16. Job 0 costs \<open>m 0 1 + m 1 0 = 6 + 3 = 9\<close> to add, so its value is
  \<open>9 - 1 * 9 = 0\<close>; job 1 costs \<open>m 0 2 + m 2 0 = 11 + 5 = 16\<close>, so its value is
  \<open>16 - 1 * 16 = 0\<close> too. Job 0, the first in scan order, is inserted.
\<close>

theorem greedy_loop_inserts_cheapest_witness:
  "sorted_wrt (<) [0, 1 :: nat]
   \<and> feasible_insertion ex_routes ex_input 0 [] [0, 1] 0 0
   \<and> feasible_insertion ex_routes ex_input 0 [] [0, 1] 1 0
   \<and> fsub ex_float
       (of_gain ex_float (addition_cost ex_input (matrix ex_input) 0 (vehicles ex_input ! 0)
                            (route_of ex_routes []) 0))
       (fmul ex_float 1 (of_cost ex_float ([9, 16] ! 0))) = 0
   \<and> fsub ex_float
       (of_gain ex_float (addition_cost ex_input (matrix ex_input) 1 (vehicles ex_input ! 0)
                            (route_of ex_routes []) 0))
       (fmul ex_float 1 (of_cost ex_float ([9, 16] ! 1))) = 0
   \<and> greedy_loop ex_float ex_routes ex_input 1 0 (\<lambda>j. [9, 16] ! j) [] [0, 1]
       = greedy_loop ex_float ex_routes ex_input 1 0 (\<lambda>j. [9, 16] ! j) [0] [1]"
proof -
  let ?obj = "\<lambda>j r. fsub ex_float
       (of_gain ex_float (addition_cost ex_input (matrix ex_input) j (vehicles ex_input ! 0)
                            (route_of ex_routes []) r))
       (fmul ex_float 1 (of_cost ex_float ([9, 16] ! j)))"
  have srt: "sorted_wrt (<) [0, 1 :: nat]" by simp
  have fe: "feasible_insertion ex_routes ex_input 0 [] [0, 1] j r \<longleftrightarrow> (j = 0 \<or> j = 1) \<and> r = 0"
    for j r
    by (auto simp: feasible_insertion_def ex_routes_def ex_input_def)
  have c0: "?obj 0 0 = 0"
    by (simp add: addition_cost_def ex_float_def ex_routes_def ex_input_def
        job_index_def Let_def)
  have c1: "?obj 1 0 = 0"
    by (simp add: addition_cost_def ex_float_def ex_routes_def ex_input_def
        job_index_def Let_def)
  have below: "\<forall>j r. feasible_insertion ex_routes ex_input 0 [] [0, 1] j r \<longrightarrow>
      ?obj j r < float_max ex_float"
  proof (intro allI impI)
    fix j r assume "feasible_insertion ex_routes ex_input 0 [] [0, 1] j r"
    then have "?obj j r = 0" using fe[of j r] c0 c1 by auto
    then show "?obj j r < float_max ex_float" by (simp add: ex_float_def)
  qed
  have ex: "\<exists>j r. feasible_insertion ex_routes ex_input 0 [] [0, 1] j r"
    using fe by blast
  from greedy_loop_inserts_cheapest[OF srt below] ex
  obtain bj br where b: "feasible_insertion ex_routes ex_input 0 [] [0, 1] bj br"
    "\<forall>j r. feasible_insertion ex_routes ex_input 0 [] [0, 1] j r \<longrightarrow>
       ?obj bj br \<le> ?obj j r \<and> (?obj j r = ?obj bj br \<longrightarrow> bj < j \<or> (bj = j \<and> br \<le> r))"
    "greedy_loop ex_float ex_routes ex_input 1 0 (\<lambda>j. [9, 16] ! j) [] [0, 1]
       = greedy_loop ex_float ex_routes ex_input 1 0 (\<lambda>j. [9, 16] ! j)
           (update_amounts ex_routes (add ex_routes [] ex_input bj br) ex_input)
           (set_erase bj [0, 1])"
    unfolding Let_def by (simp split: if_splits) blast
  have br: "br = 0" using b(1) fe by blast
  have fe00: "feasible_insertion ex_routes ex_input 0 [] [0, 1] 0 0"
    using fe[of 0 0] by blast
  have "bj = 0 \<or> bj = 1" using b(1) fe by blast
  then have objb: "?obj bj br = 0" using c0 c1 br by blast
  have e: "?obj 0 0 = ?obj bj br" unfolding c0 objb by (rule refl)
  from b(2)[rule_format, OF fe00] e have "bj < 0 \<or> (bj = 0 \<and> br \<le> 0)" by blast
  then have bj: "bj = 0" by simp
  have "greedy_loop ex_float ex_routes ex_input 1 0 (\<lambda>j. [9, 16] ! j) [] [0, 1]
       = greedy_loop ex_float ex_routes ex_input 1 0 (\<lambda>j. [9, 16] ! j) [0] [1]"
    using b(3) unfolding bj br by (simp add: ex_routes_def set_erase_def)
  then show ?thesis
    using srt fe[of 0 0] fe[of 1 0] c0 c1 by blast
qed

subsection \<open>Termination and the partition of the jobs\<close>

text \<open>The multiset of the job ranks in the routes.\<close>

definition assigned :: "('c, 'd, 'r) RouteClass \<Rightarrow> 'r list \<Rightarrow> Index multiset" where
  "assigned T routes = mset (concat (map (route_of T) routes))"

lemma assigned_update:
  assumes "v < length routes"
  shows "assigned T (routes[v := c]) + mset (route_of T (routes ! v))
           = assigned T routes + mset (route_of T c)"
proof -
  have r: "routes = take v routes @ routes ! v # drop (Suc v) routes"
    using assms by (simp add: id_take_nth_drop)
  have u: "routes[v := c] = take v routes @ c # drop (Suc v) routes"
    using assms by (simp add: upd_conv_take_nth_drop)
  have "assigned T routes = assigned T (take v routes @ routes ! v # drop (Suc v) routes)"
    using r by simp
  then show ?thesis
    unfolding u by (simp add: assigned_def)
qed

lemma contract_insert:
  assumes "route_contract T"
  shows "mset (route_of T (update_amounts T (add T r inp j pos) inp))
           = add_mset j (mset (route_of T r))"
proof -
  have "route_of T (update_amounts T (add T r inp j pos) inp)
      = take pos (route_of T r) @ [j] @ drop pos (route_of T r)"
    using assms by (simp add: route_contract_def)
  then have "mset (route_of T (update_amounts T (add T r inp j pos) inp))
      = mset (take pos (route_of T r) @ [j] @ drop pos (route_of T r))"
    by simp
  moreover have "mset (take pos (route_of T r)) + mset (drop pos (route_of T r))
      = mset (route_of T r)"
    by (metis append_take_drop_id mset_append)
  ultimately show ?thesis by simp
qed

lemma mset_set_erase:
  assumes "distinct un" "j \<in> set un"
  shows "add_mset j (mset (set_erase j un)) = mset un" and "distinct (set_erase j un)"
    and "length (set_erase j un) < length un" and "set (set_erase j un) \<subseteq> set un"
proof -
  have "set_erase j un = remove1 j un"
    using assms(1) by (simp add: set_erase_def distinct_remove1_removeAll)
  then show "add_mset j (mset (set_erase j un)) = mset un"
    using assms(2) by simp
  show "distinct (set_erase j un)" using assms(1) by (simp add: set_erase_def distinct_removeAll)
  show "length (set_erase j un) < length un"
    using assms(2) by (simp add: set_erase_def length_removeAll_less)
  show "set (set_erase j un) \<subseteq> set un" by (auto simp: set_erase_def)
qed

lemma set_erase_shorter:
  assumes "j \<in> set un"
  shows "length (set_erase j un) < length un" and "set (set_erase j un) \<subseteq> set un"
  using assms by (auto simp: set_erase_def length_removeAll_less)

text \<open>
  What one insertion does: a job of the unassigned set moves into the current route. This
  is the step of the init code and of each round of the greedy loop.
\<close>

definition moves_jobs ::
  "('c, 'd, 'r) RouteClass \<Rightarrow> 'r \<Rightarrow> Index list \<Rightarrow> 'r \<Rightarrow> Index list \<Rightarrow> bool" where
  "moves_jobs T current_r unassigned r' un' \<longleftrightarrow>
     set un' \<subseteq> set unassigned \<and>
     (route_contract T \<and> distinct unassigned \<longrightarrow>
        distinct un' \<and>
        mset (route_of T r') + mset un' = mset (route_of T current_r) + mset unassigned)"

lemma moves_jobs_refl: "moves_jobs T r un r un"
  by (simp add: moves_jobs_def)

lemma moves_jobs_insert:
  assumes "j \<in> set un"
  shows "moves_jobs T r un (update_amounts T (add T r inp j pos) inp) (set_erase j un)"
proof -
  have "distinct (set_erase j un) \<and>
        mset (route_of T (update_amounts T (add T r inp j pos) inp)) + mset (set_erase j un)
          = mset (route_of T r) + mset un"
    if c: "route_contract T" and d: "distinct un"
    using contract_insert[OF c, of r inp j pos] mset_set_erase(1,2)[OF d assms]
    by (metis union_mset_add_mset_left union_mset_add_mset_right)
  then show ?thesis
    using set_erase_shorter(2)[OF assms] by (simp add: moves_jobs_def)
qed

lemma moves_jobs_trans:
  assumes "moves_jobs T r un r' un'" "moves_jobs T r' un' r'' un''"
  shows "moves_jobs T r un r'' un''"
  using assms unfolding moves_jobs_def by auto

lemma init_visit_best:
  "init_ok (init_visit T inp init v_rank current_r skip cost_of job_rank st) \<Longrightarrow>
     (init_ok st \<and>
      best_job_rank (init_visit T inp init v_rank current_r skip cost_of job_rank st)
        = best_job_rank st)
     \<or> best_job_rank (init_visit T inp init v_rank current_r skip cost_of job_rank st)
        = job_rank"
  by (cases init) (auto simp: init_visit_def Let_def split: if_splits)

lemma init_fold_best:
  "init_ok (fold (init_visit T inp init v_rank current_r skip cost_of) un st) \<Longrightarrow>
     (init_ok st \<and>
      best_job_rank (fold (init_visit T inp init v_rank current_r skip cost_of) un st)
        = best_job_rank st)
     \<or> best_job_rank (fold (init_visit T inp init v_rank current_r skip cost_of) un st)
        \<in> set un"
proof (induction un arbitrary: st rule: rev_induct)
  case Nil
  then show ?case by simp
next
  case (snoc j un)
  let ?st = "fold (init_visit T inp init v_rank current_r skip cost_of) un st"
  from snoc.prems have ok: "init_ok (init_visit T inp init v_rank current_r skip cost_of j ?st)"
    by simp
  from init_visit_best[OF ok] show ?case
  proof
    assume a: "init_ok ?st \<and>
      best_job_rank (init_visit T inp init v_rank current_r skip cost_of j ?st)
        = best_job_rank ?st"
    with snoc.IH[of st] show ?thesis by auto
  next
    assume "best_job_rank (init_visit T inp init v_rank current_r skip cost_of j ?st) = j"
    then show ?thesis by simp
  qed
qed

lemma init_step_moves:
  "moves_jobs T current_r unassigned
     (fst (init_step T inp init v_rank current_r unassigned skip cost_of))
     (snd (init_step T inp init v_rank current_r unassigned skip cost_of))"
proof -
  let ?init = "\<lparr> init_ok = False, higher_amount = zero_amount inp, furthest_cost = 0,
                 nearest_cost = - 1, earliest_deadline = - 1, best_job_rank = 0 \<rparr>
              :: ('a word, 'b word) init_state"
  let ?st = "fold (init_visit T inp init v_rank current_r skip cost_of) unassigned ?init"
  show ?thesis
  proof (cases "init \<noteq> NONE \<and> init_ok ?st")
    case True
    then have "best_job_rank ?st \<in> set unassigned"
      using init_fold_best[where un = unassigned and st = ?init and T = T and inp = inp
          and init = init and v_rank = v_rank and current_r = current_r and skip = skip
          and cost_of = cost_of]
      by simp
    from moves_jobs_insert[OF this, of T current_r inp 0] True show ?thesis
      by (simp add: init_step_def Let_def)
  next
    case False
    then show ?thesis
      by (auto simp: init_step_def Let_def moves_jobs_refl)
  qed
qed

lemma greedy_loop_returns:
  "\<exists>r' un'. greedy_loop F T inp lambda v_rank weight current_r unassigned = Some (r', un')
             \<and> moves_jobs T current_r unassigned r' un'"
proof (induction "length unassigned" arbitrary: current_r unassigned rule: less_induct)
  case less
  obtain bc bj br where sc:
    "greedy_scan F T inp lambda v_rank current_r unassigned weight = (bc, bj, br)"
    by (cases "greedy_scan F T inp lambda v_rank current_r unassigned weight") auto
  show ?case
  proof (cases "bc < float_max F")
    case True
    have bj: "bj \<in> set unassigned"
      using greedy_scan_some(1)[OF sc True] by (simp add: feasible_insertion_def)
    let ?r = "update_amounts T (add T current_r inp bj br) inp"
    from less[OF set_erase_shorter(1)[OF bj], of ?r]
    obtain r' un' where
      r: "greedy_loop F T inp lambda v_rank weight ?r (set_erase bj unassigned) = Some (r', un')"
      and m: "moves_jobs T ?r (set_erase bj unassigned) r' un'"
      by blast
    have "moves_jobs T current_r unassigned r' un'"
      using moves_jobs_trans[OF moves_jobs_insert[OF bj] m] .
    then show ?thesis
      using greedy_loop_go[OF sc True] r by simp
  next
    case False
    then show ?thesis
      using greedy_loop_stop[OF sc False] by (simp add: moves_jobs_refl)
  qed
qed

text \<open>What the per-vehicle loops keep: one route per vehicle, and every job in one place.\<close>

definition keeps_jobs ::
  "('c, 'd, 'r) RouteClass \<Rightarrow> 'r list \<Rightarrow> Index list \<Rightarrow> 'r list \<Rightarrow> Index list \<Rightarrow> bool" where
  "keeps_jobs T routes unassigned routes' un' \<longleftrightarrow>
     length routes' = length routes \<and> set un' \<subseteq> set unassigned \<and>
     (route_contract T \<and> distinct unassigned \<longrightarrow>
        distinct un' \<and> assigned T routes' + mset un' = assigned T routes + mset unassigned)"

lemma keeps_jobs_refl: "keeps_jobs T routes un routes un"
  by (simp add: keeps_jobs_def)

lemma keeps_jobs_trans:
  assumes "keeps_jobs T routes un routes' un'" "keeps_jobs T routes' un' routes'' un''"
  shows "keeps_jobs T routes un routes'' un''"
  using assms unfolding keeps_jobs_def by auto

lemma keeps_jobs_vehicle:
  assumes "v < length routes" "moves_jobs T (routes ! v) un r' un'"
  shows "keeps_jobs T routes un (routes[v := r']) un'"
proof -
  have "distinct un' \<and> assigned T (routes[v := r']) + mset un' = assigned T routes + mset un"
    if c: "route_contract T" and d: "distinct un"
  proof -
    from assms(2) c d have d': "distinct un'"
      and m: "mset (route_of T r') + mset un' = mset (route_of T (routes ! v)) + mset un"
      by (simp_all add: moves_jobs_def)
    have "assigned T (routes[v := r']) + mset un' + mset (route_of T (routes ! v))
        = assigned T routes + (mset (route_of T r') + mset un')"
      using assigned_update[OF assms(1), of T r'] by (simp add: ac_simps)
    also have "\<dots> = assigned T routes + mset un + mset (route_of T (routes ! v))"
      by (simp only: m) (simp add: ac_simps)
    finally show ?thesis using d' by simp
  qed
  then show ?thesis
    using assms(2) by (simp add: keeps_jobs_def moves_jobs_def)
qed

lemma vehicle_step:
  assumes "v < length routes"
  shows "\<exists>r' un'.
      greedy_loop F T inp lambda v weight
        (fst (init_step T inp init v (routes ! v) un skip cost_of))
        (snd (init_step T inp init v (routes ! v) un skip cost_of)) = Some (r', un')
      \<and> keeps_jobs T routes un (routes[v := r']) un'"
proof -
  let ?r1 = "fst (init_step T inp init v (routes ! v) un skip cost_of)"
  let ?u1 = "snd (init_step T inp init v (routes ! v) un skip cost_of)"
  obtain r' un' where g: "greedy_loop F T inp lambda v weight ?r1 ?u1 = Some (r', un')"
    and m: "moves_jobs T ?r1 ?u1 r' un'"
    using greedy_loop_returns[of F T inp lambda v weight ?r1 ?u1] by blast
  have "moves_jobs T (routes ! v) un r' un'"
    using moves_jobs_trans[OF init_step_moves m] .
  then show ?thesis
    using g keeps_jobs_vehicle[OF assms] by blast
qed

lemma basic_loop_returns:
  assumes "set vs \<subseteq> {0..<length routes}"
  shows "\<exists>routes' un'.
      basic_loop F T inp init lambda costs vs routes un = Some (routes', un')
      \<and> keeps_jobs T routes un routes' un'"
  using assms
proof (induction vs arbitrary: routes un)
  case Nil
  then show ?case by (simp add: keeps_jobs_refl)
next
  case (Cons v vs)
  have v: "v < length routes" using Cons.prems by simp
  from vehicle_step[OF v, of F T inp lambda "\<lambda>job_rank. costs ! job_rank" init un
      "\<lambda>job_rank. False" "\<lambda>job_rank. costs ! job_rank"]
  obtain r' un' where
    g: "greedy_loop F T inp lambda v (\<lambda>job_rank. costs ! job_rank)
          (fst (init_step T inp init v (routes ! v) un (\<lambda>job_rank. False)
                 (\<lambda>job_rank. costs ! job_rank)))
          (snd (init_step T inp init v (routes ! v) un (\<lambda>job_rank. False)
                 (\<lambda>job_rank. costs ! job_rank))) = Some (r', un')"
    and k: "keeps_jobs T routes un (routes[v := r']) un'"
    by blast
  have "set vs \<subseteq> {0..<length (routes[v := r'])}" using Cons.prems by simp
  from Cons.IH[OF this, of un'] obtain routes'' un'' where
    b: "basic_loop F T inp init lambda costs vs (routes[v := r']) un' = Some (routes'', un'')"
    and k': "keeps_jobs T (routes[v := r']) un' routes'' un''"
    by blast
  have "basic_loop F T inp init lambda costs (v # vs) routes un = Some (routes'', un'')"
    using g b by (simp add: split_beta)
  then show ?case
    using keeps_jobs_trans[OF k k'] by blast
qed

lemma length_erase_at:
  assumes "i < length xs"
  shows "length (erase_at i xs) < length xs" and "set (erase_at i xs) \<subseteq> set xs"
  using assms by (auto simp: erase_at_def dest: in_set_takeD in_set_dropD)

lemma dynamic_loop_returns:
  assumes "set vrs \<subseteq> {0..<length routes}"
  shows "\<exists>routes' un'.
      dynamic_loop F T inp init lambda costs routes vrs un = Some (routes', un')
      \<and> keeps_jobs T routes un routes' un'"
  using assms
proof (induction "length vrs" arbitrary: routes vrs un rule: less_induct)
  case less
  show ?case
  proof (cases "vrs \<noteq> [] \<and> un \<noteq> []")
    case False
    then have "dynamic_loop F T inp init lambda costs routes vrs un = Some (routes, un)"
      by (subst dynamic_loop.simps) auto
    then show ?thesis by (simp add: keeps_jobs_refl)
  next
    case True
    obtain mins secs where ms:
      "min_costs_scan costs (length (jobs inp)) un vrs = (mins, secs)"
      by (cases "min_costs_scan costs (length (jobs inp)) un vrs")
    define chosen where "chosen = min_element
        (closer inp (count_closest costs mins (length (vehicles inp)) un vrs)) vrs"
    define v where "v = vrs ! chosen"
    define vrs' where "vrs' = erase_at chosen vrs"
    define regrets where
      "regrets = compute_regrets costs mins secs (length (jobs inp)) un v"
    have ch: "chosen < length vrs"
      unfolding chosen_def using True by (intro min_element_less) simp
    have v: "v < length routes"
      using less.prems ch unfolding v_def by (metis atLeastLessThan_iff nth_mem subsetD)
    from vehicle_step[OF v, of F T inp lambda "\<lambda>job_rank. regrets ! job_rank" init un
        "\<lambda>job_rank. mins ! job_rank < costs ! job_rank ! v" "\<lambda>job_rank. costs ! job_rank ! v"]
    obtain r' un' where
      g: "greedy_loop F T inp lambda v (\<lambda>job_rank. regrets ! job_rank)
            (fst (init_step T inp init v (routes ! v) un
                   (\<lambda>job_rank. mins ! job_rank < costs ! job_rank ! v)
                   (\<lambda>job_rank. costs ! job_rank ! v)))
            (snd (init_step T inp init v (routes ! v) un
                   (\<lambda>job_rank. mins ! job_rank < costs ! job_rank ! v)
                   (\<lambda>job_rank. costs ! job_rank ! v))) = Some (r', un')"
      and k: "keeps_jobs T routes un (routes[v := r']) un'"
      by blast
    have shorter: "length vrs' < length vrs" and sub: "set vrs' \<subseteq> set vrs"
      unfolding vrs'_def using length_erase_at[OF ch] by simp_all
    have "set vrs' \<subseteq> {0..<length (routes[v := r'])}"
      using sub less.prems by simp
    from less.hyps[OF shorter this, of un'] obtain routes'' un'' where
      d: "dynamic_loop F T inp init lambda costs (routes[v := r']) vrs' un'
            = Some (routes'', un'')"
      and k': "keeps_jobs T (routes[v := r']) un' routes'' un''"
      by blast
    have "dynamic_loop F T inp init lambda costs routes vrs un = Some (routes'', un'')"
      using True g d
      by (subst dynamic_loop.simps)
        (simp add: ms Let_def split_beta chosen_def[symmetric] v_def[symmetric]
          vrs'_def[symmetric] regrets_def[symmetric])
    then show ?thesis
      using keeps_jobs_trans[OF k k'] by blast
  qed
qed

lemma basic_returns:
  assumes "vehicles inp \<noteq> [] \<or> jobs inp = []"
  shows "\<exists>routes un.
      basic F T inp init lambda = Some (Inr (routes, un))
      \<and> keeps_jobs T (map (new_route T inp) [0..<length (vehicles inp)])
          [0..<length (jobs inp)] routes un"
proof -
  have "set (stable_sort (vehicle_higher inp) [0..<length (vehicles inp)])
      \<subseteq> {0..<length (map (new_route T inp) [0..<length (vehicles inp)])}"
    by (simp add: set_stable_sort)
  from basic_loop_returns[OF this, of F T inp init lambda
      "map (empty_route_cost inp (vehicles inp ! 0)) [0..<length (jobs inp)]"
      "[0..<length (jobs inp)]"]
  obtain routes un where
    "basic_loop F T inp init lambda
       (map (empty_route_cost inp (vehicles inp ! 0)) [0..<length (jobs inp)])
       (stable_sort (vehicle_higher inp) [0..<length (vehicles inp)])
       (map (new_route T inp) [0..<length (vehicles inp)]) [0..<length (jobs inp)]
     = Some (routes, un)"
    "keeps_jobs T (map (new_route T inp) [0..<length (vehicles inp)])
       [0..<length (jobs inp)] routes un"
    by blast
  then show ?thesis
    using assms by (auto simp: basic_def Let_def)
qed

lemma basic_crashes:
  "basic F T inp init lambda = Some (Inl Out_of_bounds)
     \<longleftrightarrow> vehicles inp = [] \<and> jobs inp \<noteq> []"
  by (auto simp: basic_def Let_def)

lemma dynamic_vehicle_choice_returns:
  "\<exists>routes un.
      dynamic_vehicle_choice F T inp init lambda = Some (routes, un)
      \<and> keeps_jobs T (map (new_route T inp) [0..<length (vehicles inp)])
          [0..<length (jobs inp)] routes un"
proof -
  have "set [0..<length (vehicles inp)]
      \<subseteq> {0..<length (map (new_route T inp) [0..<length (vehicles inp)])}"
    by simp
  from dynamic_loop_returns[OF this] show ?thesis
    by (simp add: dynamic_vehicle_choice_def Let_def)
qed







text \<open>Every job rank is in exactly one place: once in one route, or in the residual set.\<close>

definition jobs_partitioned ::
  "('c, 'd, 'r) RouteClass \<Rightarrow> ('c, 'd) Input \<Rightarrow> 'r list \<Rightarrow> Index list \<Rightarrow> bool" where
  "jobs_partitioned T inp routes unassigned \<longleftrightarrow>
     distinct (concat (map (route_of T) routes)) \<and>
     set (concat (map (route_of T) routes)) \<union> set unassigned = {0..<length (jobs inp)} \<and>
     set (concat (map (route_of T) routes)) \<inter> set unassigned = {}"

lemma assigned_new:
  assumes "route_contract T"
  shows "assigned T (map (new_route T inp) vs) = {#}"
  using assms by (induction vs) (auto simp: assigned_def route_contract_def)

lemma partition_from_keeps:
  assumes c: "route_contract T"
    and k: "keeps_jobs T (map (new_route T inp) vs) [0..<length (jobs inp)] routes un"
  shows "jobs_partitioned T inp routes un"
proof -
  let ?js = "concat (map (route_of T) routes)"
  have "assigned T routes + mset un = mset [0..<length (jobs inp)]"
    using k c assigned_new[OF c, of inp vs] by (simp add: keeps_jobs_def)
  then have m: "mset (?js @ un) = mset [0..<length (jobs inp)]"
    by (simp add: assigned_def)
  have d: "distinct (?js @ un)"
    using mset_eq_imp_distinct_iff[OF m] by simp
  have s: "set (?js @ un) = {0..<length (jobs inp)}"
    using mset_eq_setD[OF m] by simp
  show ?thesis
    using d s by (auto simp: jobs_partitioned_def)
qed

text \<open>
  Claim C8. With a route class whose \<open>add\<close> inserts the job at the position (and whose
  routes start empty), in what \<open>basic\<close> and \<open>dynamic_vehicle_choice\<close> return no job rank
  occurs twice in the routes, and the job ranks in the routes together with the residual
  unassigned set are all the job ranks, with none in both.
\<close>

theorem solution_partitions_jobs:
  fixes F :: "('c::len word, 'f::linorder) Float"
    and T :: "('c word, 'd::len word, 'r) RouteClass"
  assumes "route_contract T"
  shows "(\<forall>routes un. basic F T inp init lambda = Some (Inr (routes, un))
            \<longrightarrow> jobs_partitioned T inp routes un)
       \<and> (\<forall>routes un. dynamic_vehicle_choice F T inp init lambda = Some (routes, un)
            \<longrightarrow> jobs_partitioned T inp routes un)"
proof (intro conjI allI impI)
  fix routes un
  assume r: "basic F T inp init lambda = Some (Inr (routes, un))"
  then have "basic F T inp init lambda \<noteq> Some (Inl Out_of_bounds)" by simp
  then have "vehicles inp \<noteq> [] \<or> jobs inp = []"
    unfolding basic_crashes by blast
  from basic_returns[OF this, of F T init lambda] r
  have "keeps_jobs T (map (new_route T inp) [0..<length (vehicles inp)])
          [0..<length (jobs inp)] routes un"
    by auto
  then show "jobs_partitioned T inp routes un"
    by (rule partition_from_keeps[OF assms])
next
  fix routes un
  assume "dynamic_vehicle_choice F T inp init lambda = Some (routes, un)"
  with dynamic_vehicle_choice_returns[of F T inp init lambda]
  have "keeps_jobs T (map (new_route T inp) [0..<length (vehicles inp)])
          [0..<length (jobs inp)] routes un"
    by auto
  then show "jobs_partitioned T inp routes un"
    by (rule partition_from_keeps[OF assms])
qed

lemma ex_routes_contract: "route_contract ex_routes"
  by (simp add: route_contract_def ex_routes_def)

lemma ex_input_fleet: "vehicles ex_input \<noteq> [] \<or> jobs ex_input = []"
  by (simp add: ex_input_def)

theorem solution_partitions_jobs_witness:
  "route_contract ex_routes
   \<and> (\<exists>routes un. basic ex_float ex_routes ex_input NEAREST 1 = Some (Inr (routes, un))
        \<and> jobs_partitioned ex_routes ex_input routes un)
   \<and> (\<exists>routes un. dynamic_vehicle_choice ex_float ex_routes ex_input NEAREST 1
          = Some (routes, un)
        \<and> jobs_partitioned ex_routes ex_input routes un)"
  using ex_routes_contract
    solution_partitions_jobs[OF ex_routes_contract, of ex_float ex_input NEAREST 1]
    basic_returns[OF ex_input_fleet, of ex_float ex_routes NEAREST 1]
    dynamic_vehicle_choice_returns[of ex_float ex_routes ex_input NEAREST 1]
  by blast

end
